theory Spec2Isabelle
  imports Main "HOL-Library.List_Lexorder" "HOL-Library.Char_ord"
begin

text \<open>
  The point-in-time view of a versioned bucket (\<^verbatim>\<open>gcs_pit.go\<close>) and the listing of
  object versions behind it. The backend is a parameter: what its iterator yields and what
  its attributes call answers. The debug output of the code is left out, and a cancelled
  context is one of the errors the iterator may yield.
\<close>

section \<open>Time values, errors and the data model\<close>

text \<open>
  A \<^verbatim>\<open>time.Time\<close> is the integer offset of the instant from Go's zero time, so
  \<^verbatim>\<open>IsZero\<close> is equality with 0 and \<^verbatim>\<open>After\<close>, \<^verbatim>\<open>Before\<close> are the strict
  comparisons. A \<^verbatim>\<open>*time.Time\<close> is a \<open>time option\<close>, \<open>None\<close> being the nil pointer.
\<close>

type_synonym time = int

definition IsZero :: "time \<Rightarrow> bool" where
  "IsZero t = (t = 0)"

definition After :: "time \<Rightarrow> time \<Rightarrow> bool" where
  \<comment> \<open>\<^verbatim>\<open>t.After(u)\<close>\<close>
  "After t u = (u < t)"

definition Before :: "time \<Rightarrow> time \<Rightarrow> bool" where
  \<comment> \<open>\<^verbatim>\<open>t.Before(u)\<close>\<close>
  "Before t u = (t < u)"

text \<open>
  Errors are values. The message of \<^verbatim>\<open>errors.Wrapf\<close> and \<^verbatim>\<open>errors.Errorf\<close> is kept as
  the format string it comes from, with its arguments.
\<close>

datatype message =
    CouldNotListBlobVersionsAtTime time
  | CouldNotGetVersionMetadataForBlob string
  | CouldNotDetermineVersioning string
  | NonVersionedBucket string
  | CouldNotListObjectsWithPrefix string
  | CallbackFailedFor string

datatype error =
    ErrBlobNotFound
  | ErrReadOnly
  | Other string
  | Wrapf error message
  | Errorf message

text \<open>The error at the bottom of a chain of \<^verbatim>\<open>Wrapf\<close> (\<^verbatim>\<open>errors.Cause\<close>).\<close>

fun Cause :: "error \<Rightarrow> error" where
  "Cause (Wrapf e c) = Cause e"
| "Cause e = e"

text \<open>\<^verbatim>\<open>blob.Metadata\<close>, and \<^verbatim>\<open>versionMetadata\<close>, which embeds it.\<close>

record Metadata =
  BlobID :: string
  Length :: int
  Timestamp :: time

record versionMetadata = Metadata +
  IsDeleteMarker :: bool
  Version :: string

text \<open>The zero value \<^verbatim>\<open>versionMetadata{}\<close>.\<close>

definition versionMetadata_zero :: versionMetadata where
  "versionMetadata_zero =
     \<lparr>BlobID = [], Length = 0, Timestamp = 0, IsDeleteMarker = False, Version = []\<rparr>"

text \<open>The fields of \<^verbatim>\<open>storage.ObjectAttrs\<close> and \<^verbatim>\<open>storage.BucketAttrs\<close> that the code reads.\<close>

record ObjectAttrs =
  Name :: string
  Size :: int
  Created :: time
  Deleted :: time
  Generation :: int

record BucketAttrs =
  VersioningEnabled :: bool

text \<open>
  The bucket handle: \<open>Objects\<close> gives, for a query prefix, what successive calls of the
  iterator's \<^verbatim>\<open>Next\<close> return before \<^verbatim>\<open>iterator.Done\<close> (an object or an error);
  \<open>Attrs\<close> is the answer of \<^verbatim>\<open>bucket.Attrs\<close>.
\<close>

record BucketHandle =
  Objects :: "string \<Rightarrow> (error + ObjectAttrs) list"
  Attrs :: "error + BucketAttrs"

text \<open>
  \<^verbatim>\<open>gcsStorage\<close> with the fields of its embedded options that the code reads, and
  \<^verbatim>\<open>gcsPointInTimeStorage\<close>, which embeds it.
\<close>

record gcsStorage =
  BucketName :: string
  Prefix :: string
  PointInTime :: "time option"
  bucket :: BucketHandle

record gcsPointInTimeStorage = gcsStorage +
  pointInTime :: time

section \<open>The resolver\<close>

text \<open>
  \<^verbatim>\<open>getOlderThan\<close>: the loop returns \<^verbatim>\<open>vs[:i]\<close> at the first index whose entry is
  after \<open>t\<close>, and \<^verbatim>\<open>vs\<close> when there is none.
\<close>

fun getOlderThan :: "versionMetadata list \<Rightarrow> time \<Rightarrow> versionMetadata list" where
  "getOlderThan [] t = []"
| "getOlderThan (v # vs) t =
     (if After (Timestamp v) t then [] else v # getOlderThan vs t)"

definition newestAtUnlessDeleted ::
  "versionMetadata list \<Rightarrow> time \<Rightarrow> versionMetadata \<times> bool" where
  "newestAtUnlessDeleted vs t =
     (let vs' = getOlderThan vs t in
      if length vs' = 0 then (versionMetadata_zero, False)
      else let v = vs' ! (length vs' - 1) in (v, \<not> IsDeleteMarker v))"

section \<open>Listing versions\<close>

definition getObjectNameString :: "gcsPointInTimeStorage \<Rightarrow> string \<Rightarrow> string" where
  "getObjectNameString gcs b = Prefix gcs @ b"

definition TrimPrefix :: "string \<Rightarrow> string \<Rightarrow> string" where
  \<comment> \<open>\<^verbatim>\<open>strings.TrimPrefix\<close>\<close>
  "TrimPrefix s p = (if take (length p) s = p then drop (length p) s else s)"

definition toBlobID :: "string \<Rightarrow> string \<Rightarrow> string" where
  "toBlobID blobName prefix = TrimPrefix blobName prefix"

fun digits10 :: "nat \<Rightarrow> string" where
  "digits10 n =
     (if n < 10 then [''0123456789'' ! n]
      else digits10 (n div 10) @ [''0123456789'' ! (n mod 10)])"

definition FormatInt10 :: "int \<Rightarrow> string" where
  \<comment> \<open>\<^verbatim>\<open>strconv.FormatInt(i, 10)\<close>\<close>
  "FormatInt10 i = (if i < 0 then CHR ''-'' # digits10 (nat (- i)) else digits10 (nat i))"

definition getVersionMetadata ::
  "gcsPointInTimeStorage \<Rightarrow> string \<Rightarrow> ObjectAttrs \<Rightarrow> versionMetadata" where
  "getVersionMetadata gcs prefix oi =
     \<lparr>BlobID = toBlobID (Name oi) prefix,
      Length = Size oi,
      Timestamp = Created oi,
      IsDeleteMarker =
        (\<not> IsZero (Deleted oi) \<and>
         (case PointInTime gcs of None \<Rightarrow> True | Some pit \<Rightarrow> Before (Deleted oi) pit)),
      Version = FormatInt10 (Generation oi)\<rparr>"

text \<open>
  A callback is a closure: it takes the record and the state it has captured, and returns
  its error (\<open>None\<close> is \<^verbatim>\<open>nil\<close>) and the new state.
\<close>

type_synonym ('a, 's) callback = "'a \<Rightarrow> 's \<Rightarrow> error option \<times> 's"

text \<open>The loop of \<^verbatim>\<open>list\<close> over what the iterator still has to return.\<close>

fun list_loop ::
  "gcsPointInTimeStorage \<Rightarrow> string \<Rightarrow> bool \<Rightarrow> (versionMetadata, 's) callback \<Rightarrow>
   (error + ObjectAttrs) list \<Rightarrow> 's \<Rightarrow> error option \<times> 's" where
  "list_loop gcs queryPrefix onlyMatching callback [] s = (None, s)"
| "list_loop gcs queryPrefix onlyMatching callback (Inl err # it) s =
     (Some (Wrapf err (CouldNotListObjectsWithPrefix queryPrefix)), s)"
| "list_loop gcs queryPrefix onlyMatching callback (Inr attrs # it) s =
     (if onlyMatching \<and> Name attrs \<noteq> queryPrefix then (None, s)
      else
        let om = getVersionMetadata gcs queryPrefix attrs in
        (case callback om s of
           (Some errCallback, s') \<Rightarrow>
             (Some (Wrapf errCallback (CallbackFailedFor (Name attrs))), s')
         | (None, s') \<Rightarrow> list_loop gcs queryPrefix onlyMatching callback it s'))"

definition list ::
  "gcsPointInTimeStorage \<Rightarrow> string \<Rightarrow> bool \<Rightarrow> (versionMetadata, 's) callback \<Rightarrow>
   's \<Rightarrow> error option \<times> 's" where
  "list gcs prefix onlyMatching callback s =
     (let queryPrefix = getObjectNameString gcs prefix in
      list_loop gcs queryPrefix onlyMatching callback (Objects (bucket gcs) queryPrefix) s)"

definition listBlobVersions ::
  "gcsPointInTimeStorage \<Rightarrow> string \<Rightarrow> (versionMetadata, 's) callback \<Rightarrow>
   's \<Rightarrow> error option \<times> 's" where
  "listBlobVersions gcs prefix callback s = list gcs prefix False callback s"

text \<open>\<^verbatim>\<open>getBlobVersions\<close>: its closure captures \<^verbatim>\<open>foundBlobs\<close> beside the caller's state.\<close>

definition getBlobVersions_visit ::
  "(versionMetadata, 's) callback \<Rightarrow> (versionMetadata, bool \<times> 's) callback" where
  "getBlobVersions_visit callback vm st =
     (case st of (foundBlobs, s) \<Rightarrow>
        (case callback vm s of (r, s') \<Rightarrow> (r, (True, s'))))"

definition getBlobVersions ::
  "gcsPointInTimeStorage \<Rightarrow> string \<Rightarrow> (versionMetadata, 's) callback \<Rightarrow>
   's \<Rightarrow> error option \<times> 's" where
  "getBlobVersions gcs prefix callback s =
     (case list gcs prefix True (getBlobVersions_visit callback) (False, s) of
        (Some err, (foundBlobs, s')) \<Rightarrow> (Some err, s')
      | (None, (foundBlobs, s')) \<Rightarrow>
          if \<not> foundBlobs then (Some ErrBlobNotFound, s') else (None, s'))"

section \<open>The point-in-time view\<close>

text \<open>\<^verbatim>\<open>getMetadata\<close>: its closure captures the slice \<^verbatim>\<open>vml\<close>.\<close>

definition getMetadata_visit ::
  "gcsPointInTimeStorage \<Rightarrow> (versionMetadata, versionMetadata list) callback" where
  "getMetadata_visit gcs m vml =
     (None, if \<not> After (Timestamp m) (pointInTime gcs) then vml @ [m] else vml)"

definition getMetadata :: "gcsPointInTimeStorage \<Rightarrow> string \<Rightarrow> error + versionMetadata" where
  "getMetadata gcs b =
     (case getBlobVersions gcs b (getMetadata_visit gcs) [] of
        (Some err, vml) \<Rightarrow> Inl (Wrapf err (CouldNotGetVersionMetadataForBlob b))
      | (None, vml) \<Rightarrow>
          (case newestAtUnlessDeleted vml (pointInTime gcs) of
             (v, True) \<Rightarrow> Inr v
           | (v, False) \<Rightarrow> Inl ErrBlobNotFound))"

definition GetMetadata :: "gcsPointInTimeStorage \<Rightarrow> string \<Rightarrow> error + Metadata" where
  "GetMetadata gcs b =
     (case getMetadata gcs b of Inl err \<Rightarrow> Inl err | Inr bm \<Rightarrow> Inr (Metadata.truncate bm))"

text \<open>
  \<^verbatim>\<open>ListBlobs\<close>: its closure captures \<^verbatim>\<open>previousID\<close> and \<^verbatim>\<open>vs\<close> beside the state of the
  caller's callback.
\<close>

definition ListBlobs_visit ::
  "gcsPointInTimeStorage \<Rightarrow> (Metadata, 's) callback \<Rightarrow>
   (versionMetadata, string \<times> versionMetadata list \<times> 's) callback" where
  "ListBlobs_visit gcs cb vm st =
     (case st of (previousID, vs, s) \<Rightarrow>
        if BlobID vm \<noteq> previousID then
          (case newestAtUnlessDeleted vs (pointInTime gcs) of
             (v, True) \<Rightarrow>
               (case cb (Metadata.truncate v) s of
                  (Some err, s') \<Rightarrow> (Some err, (previousID, vs, s'))
                | (None, s') \<Rightarrow> (None, (BlobID vm, [vm], s')))
           | (v, False) \<Rightarrow> (None, (BlobID vm, [vm], s)))
        else (None, (previousID, vs @ [vm], s)))"

definition ListBlobs ::
  "gcsPointInTimeStorage \<Rightarrow> string \<Rightarrow> (Metadata, 's) callback \<Rightarrow> 's \<Rightarrow> error option \<times> 's" where
  "ListBlobs gcs blobIDPrefix cb s =
     (case listBlobVersions gcs blobIDPrefix (ListBlobs_visit gcs cb) ([], [], s) of
        (Some err, (previousID, vs, s')) \<Rightarrow>
          (Some (Wrapf err (CouldNotListBlobVersionsAtTime (pointInTime gcs))), s')
      | (None, (previousID, vs, s')) \<Rightarrow>
          (case newestAtUnlessDeleted vs (pointInTime gcs) of
             (v, True) \<Rightarrow>
               (case cb (Metadata.truncate v) s' of
                  (Some err, s'') \<Rightarrow> (Some err, s'')
                | (None, s'') \<Rightarrow> (None, s''))
           | (v, False) \<Rightarrow> (None, s')))"

section \<open>Construction of the view\<close>

text \<open>
  The implementations of \<^verbatim>\<open>blob.Storage\<close> that \<^verbatim>\<open>maybePointInTimeStore\<close> can return:
  the live backend, and the point-in-time view inside the read-only wrapper.
\<close>

datatype Storage =
    GcsStorage gcsStorage
  | PointInTimeStorage gcsPointInTimeStorage
  | ReadOnlyStorage Storage

text \<open>
  Modelled from the spec: \<^verbatim>\<open>readonly.NewWrapper\<close>, of the package
  \<^verbatim>\<open>repo/blob/readonly\<close>, whose code is not among the sources. The spec has the view
  "wrapped in a read-only guard at construction".
\<close>

definition NewWrapper :: "Storage \<Rightarrow> Storage" where
  "NewWrapper s = ReadOnlyStorage s"

text \<open>
  A call either returns or panics: \<^verbatim>\<open>maybePointInTimeStore\<close> tests
  \<^verbatim>\<open>gcs.Options.PointInTime\<close> and then dereferences its parameter \<^verbatim>\<open>pointInTime\<close>.
\<close>

datatype 'a outcome = Returns 'a | Panics

definition maybePointInTimeStore ::
  "gcsStorage \<Rightarrow> time option \<Rightarrow> (error + Storage) outcome" where
  "maybePointInTimeStore gcs pointInTime' =
     (if (case PointInTime gcs of None \<Rightarrow> True | Some pit \<Rightarrow> IsZero pit)
      then Returns (Inr (GcsStorage gcs))
      else
        (case pointInTime' of
           None \<Rightarrow> Panics
         | Some t \<Rightarrow>
             (case Attrs (bucket gcs) of
                Inl err \<Rightarrow>
                  Returns (Inl (Wrapf err (CouldNotDetermineVersioning (BucketName gcs))))
              | Inr attrs \<Rightarrow>
                  if \<not> VersioningEnabled attrs
                  then Returns (Inl (Errorf (NonVersionedBucket (BucketName gcs))))
                  else Returns (Inr (NewWrapper (PointInTimeStorage
                         (gcsStorage.extend gcs (gcsPointInTimeStorage.fields t))))))))"

text \<open>The mutating calls of the storage contract, with the blob and its bytes.\<close>

datatype mutation = Put string string | Delete string

text \<open>
  Modelled from the spec: the dispatch of a mutating call. The read-only guard "rejects
  mutating calls without reaching the decorator" (its code is not among the sources); the
  live backend and the view, which inherits the methods of the embedded \<^verbatim>\<open>gcsStorage\<close>,
  run the backend's own operation, a parameter here, on the backend's state.
\<close>

fun mutate ::
  "(mutation \<Rightarrow> 'b \<Rightarrow> error option \<times> 'b) \<Rightarrow> Storage \<Rightarrow> mutation \<Rightarrow> 'b \<Rightarrow>
   error option \<times> 'b" where
  "mutate backend (GcsStorage gcs) m b = backend m b"
| "mutate backend (PointInTimeStorage pit) m b = backend m b"
| "mutate backend (ReadOnlyStorage s) m b = (Some ErrReadOnly, b)"

section \<open>The resolver on a slice and its backing array\<close>

text \<open>
  A Go slice is a window on a backing array: \<^verbatim>\<open>vs[:i]\<close> shares the storage of \<^verbatim>\<open>vs\<close>.
  Here the array is threaded through the resolver, so that what a call leaves in it is a
  result of the call.
\<close>

record slice =
  off :: nat
  len :: nat

definition slice_ok :: "'a list \<Rightarrow> slice \<Rightarrow> bool" where
  "slice_ok mem vs = (off vs + len vs \<le> length mem)"

definition contents :: "'a list \<Rightarrow> slice \<Rightarrow> 'a list" where
  "contents mem vs = take (len vs) (drop (off vs) mem)"

function getOlderThan_slice ::
  "nat \<Rightarrow> versionMetadata list \<Rightarrow> slice \<Rightarrow> time \<Rightarrow> slice \<times> versionMetadata list" where
  "getOlderThan_slice i mem vs t =
     (if i < len vs then
        (if After (Timestamp (mem ! (off vs + i))) t then (vs\<lparr>len := i\<rparr>, mem)
         else getOlderThan_slice (Suc i) mem vs t)
      else (vs, mem))"
  by pat_completeness auto
termination
  by (relation "measure (\<lambda>(i, mem, vs, t). len vs - i)") auto

definition newestAtUnlessDeleted_slice ::
  "versionMetadata list \<Rightarrow> slice \<Rightarrow> time \<Rightarrow>
   (versionMetadata \<times> bool) \<times> versionMetadata list" where
  "newestAtUnlessDeleted_slice mem vs t =
     (case getOlderThan_slice 0 mem vs t of
        (vs', mem') \<Rightarrow>
          if len vs' = 0 then ((versionMetadata_zero, False), mem')
          else let v = mem' ! (off vs' + (len vs' - 1)) in ((v, \<not> IsDeleteMarker v), mem'))"

section \<open>Observing callbacks\<close>

text \<open>A callback that never fails and keeps the records it was called with, in order.\<close>

definition record_call :: "('a, 'a list) callback" where
  "record_call x calls = (None, calls @ [x])"

text \<open>A callback run beside the log of its calls: the record and what it returned.\<close>

definition traced :: "('a, 's) callback \<Rightarrow> ('a, 's \<times> ('a \<times> error option) list) callback" where
  "traced cb x st =
     (case st of (s, tr) \<Rightarrow> (case cb x s of (r, s') \<Rightarrow> (r, (s', tr @ [(x, r)]))))"

definition all_nil :: "('a \<times> error option) list \<Rightarrow> bool" where
  "all_nil tr = list_all (\<lambda>c. snd c = None) tr"

fun is_wrapped :: "error \<Rightarrow> bool" where
  "is_wrapped (Wrapf e c) = True"
| "is_wrapped e = False"

text \<open>What a run of records of one blob resolves to, if anything.\<close>

definition visible :: "time \<Rightarrow> versionMetadata list \<Rightarrow> Metadata option" where
  "visible t vs =
     (case newestAtUnlessDeleted vs t of
        (v, True) \<Rightarrow> Some (Metadata.truncate v)
      | (v, False) \<Rightarrow> None)"

text \<open>
  What an enumeration yields before its first backend error: the objects, and that error if
  there is one.
\<close>

fun leading_objects :: "(error + ObjectAttrs) list \<Rightarrow> ObjectAttrs list" where
  "leading_objects [] = []"
| "leading_objects (Inl err # it) = []"
| "leading_objects (Inr attrs # it) = attrs # leading_objects it"

fun backend_error :: "(error + ObjectAttrs) list \<Rightarrow> error option" where
  "backend_error [] = None"
| "backend_error (Inl err # it) = Some err"
| "backend_error (Inr attrs # it) = backend_error it"

text \<open>
  The reading of a version stream that \<^verbatim>\<open>ListBlobs\<close> is compared with: the objects
  fall into maximal runs with the same blob ID, and a run is visible when its records
  resolve to a version.
\<close>

definition blob_of :: "gcsPointInTimeStorage \<Rightarrow> string \<Rightarrow> ObjectAttrs \<Rightarrow> string" where
  "blob_of gcs q oi = BlobID (getVersionMetadata gcs q oi)"

fun object_runs ::
  "gcsPointInTimeStorage \<Rightarrow> string \<Rightarrow> ObjectAttrs list \<Rightarrow> ObjectAttrs list list" where
  "object_runs gcs q [] = []"
| "object_runs gcs q (oi # objs) =
     (case object_runs gcs q objs of
        [] \<Rightarrow> [[oi]]
      | r # rs \<Rightarrow>
          if blob_of gcs q (hd r) = blob_of gcs q oi then (oi # r) # rs else [oi] # r # rs)"

definition run_visible ::
  "gcsPointInTimeStorage \<Rightarrow> string \<Rightarrow> ObjectAttrs list \<Rightarrow> Metadata option" where
  "run_visible gcs q r = visible (pointInTime gcs) (map (getVersionMetadata gcs q) r)"

definition calls_due ::
  "gcsPointInTimeStorage \<Rightarrow> string \<Rightarrow> ObjectAttrs list list \<Rightarrow> Metadata list" where
  "calls_due gcs q rs = List.map_filter (run_visible gcs q) rs"

text \<open>The two errors \<^verbatim>\<open>ListBlobs\<close> builds around an error from inside the enumeration.\<close>

definition enumeration_failed :: "gcsPointInTimeStorage \<Rightarrow> string \<Rightarrow> error \<Rightarrow> error" where
  "enumeration_failed gcs q err =
     Wrapf (Wrapf err (CouldNotListObjectsWithPrefix q))
       (CouldNotListBlobVersionsAtTime (pointInTime gcs))"

definition callback_failed_at :: "gcsPointInTimeStorage \<Rightarrow> ObjectAttrs \<Rightarrow> error \<Rightarrow> error" where
  "callback_failed_at gcs oi e =
     Wrapf (Wrapf e (CallbackFailedFor (Name oi)))
       (CouldNotListBlobVersionsAtTime (pointInTime gcs))"

text \<open>
  The callback is called for the visible runs in order. A failing call for a run that
  another run follows is reported wrapped with the name of the first object of that next
  run, the object being enumerated when the boundary is seen, and with the point in time.
  The call for the last run is made when the enumeration has ended without a backend
  error, and what it returns is returned as it is.
\<close>

fun ListBlobs_by_runs ::
  "gcsPointInTimeStorage \<Rightarrow> string \<Rightarrow> (Metadata, 's) callback \<Rightarrow> ObjectAttrs list list \<Rightarrow>
   error option \<Rightarrow> 's \<Rightarrow> error option \<times> 's" where
  "ListBlobs_by_runs gcs q cb [] fin s = (map_option (enumeration_failed gcs q) fin, s)"
| "ListBlobs_by_runs gcs q cb [r] fin s =
     (case fin of
        Some err \<Rightarrow> (Some (enumeration_failed gcs q err), s)
      | None \<Rightarrow> (case run_visible gcs q r of None \<Rightarrow> (None, s) | Some m \<Rightarrow> cb m s))"
| "ListBlobs_by_runs gcs q cb (r # r' # rs) fin s =
     (case run_visible gcs q r of
        None \<Rightarrow> ListBlobs_by_runs gcs q cb (r' # rs) fin s
      | Some m \<Rightarrow>
          (case cb m s of
             (Some e, s') \<Rightarrow> (Some (callback_failed_at gcs (hd r') e), s')
           | (None, s') \<Rightarrow> ListBlobs_by_runs gcs q cb (r' # rs) fin s'))"

text \<open>What \<^verbatim>\<open>ListBlobs\<close> does with the outcome of \<^verbatim>\<open>listBlobVersions\<close>.\<close>

definition ListBlobs_finish ::
  "gcsPointInTimeStorage \<Rightarrow> (Metadata, 's) callback \<Rightarrow>
   error option \<times> string \<times> versionMetadata list \<times> 's \<Rightarrow> error option \<times> 's" where
  "ListBlobs_finish gcs cb out =
     (case out of
        (Some err, (previousID, vs, s')) \<Rightarrow>
          (Some (Wrapf err (CouldNotListBlobVersionsAtTime (pointInTime gcs))), s')
      | (None, (previousID, vs, s')) \<Rightarrow>
          (case newestAtUnlessDeleted vs (pointInTime gcs) of
             (v, True) \<Rightarrow>
               (case cb (Metadata.truncate v) s' of
                  (Some err, s'') \<Rightarrow> (Some err, s'')
                | (None, s'') \<Rightarrow> (None, s''))
           | (v, False) \<Rightarrow> (None, s')))"

text \<open>
  How the failure of the \<open>n\<close>-th call, made on \<open>x\<close> and returning \<open>e\<close>, is
  reported: unchanged for the last run, wrapped for a run that another run follows.
\<close>

abbreviation failure_reported ::
  "gcsPointInTimeStorage \<Rightarrow> string \<Rightarrow> ObjectAttrs list list \<Rightarrow> error option \<Rightarrow> nat \<Rightarrow>
   Metadata \<Rightarrow> error \<Rightarrow> error option \<Rightarrow> bool" where
  "failure_reported gcs q rs fin n x e res \<equiv>
     ((\<exists>ps r. rs = ps @ [r] \<and> fin = None \<and> run_visible gcs q r = Some x \<and>
         n = length (calls_due gcs q rs) \<and> res = Some e) \<or>
      (\<exists>ps r r' rest. rs = ps @ r # r' # rest \<and> run_visible gcs q r = Some x \<and>
         n = length (calls_due gcs q (ps @ [r])) \<and>
         res = Some (callback_failed_at gcs (hd r') e)))"

section \<open>Fixtures\<close>

text \<open>A store with prefix \<open>p/\<close> over a bucket whose every listing is \<open>objs\<close>, viewed at \<open>T\<close>.\<close>

definition bucket_of :: "(error + ObjectAttrs) list \<Rightarrow> bool \<Rightarrow> BucketHandle" where
  "bucket_of objs versioning =
     \<lparr>Objects = (\<lambda>q. objs), Attrs = Inr \<lparr>VersioningEnabled = versioning\<rparr>\<rparr>"

definition view_at :: "time \<Rightarrow> (error + ObjectAttrs) list \<Rightarrow> gcsPointInTimeStorage" where
  "view_at T objs =
     \<lparr>BucketName = ''bkt'', Prefix = ''p/'', PointInTime = Some T,
      bucket = bucket_of objs True, pointInTime = T\<rparr>"

definition object :: "string \<Rightarrow> time \<Rightarrow> time \<Rightarrow> int \<Rightarrow> ObjectAttrs" where
  "object n c d g = \<lparr>Name = n, Size = 7, Created = c, Deleted = d, Generation = g\<rparr>"

definition version :: "string \<Rightarrow> time \<Rightarrow> bool \<Rightarrow> string \<Rightarrow> versionMetadata" where
  "version b t d g = \<lparr>BlobID = b, Length = 7, Timestamp = t, IsDeleteMarker = d, Version = g\<rparr>"

text \<open>
  The history of blob \<open>x\<close> as the backend lists it, newest first: a version created at
  30 and deleted at 31, the overwrite at 20 and the create at 10.
\<close>

definition history_x :: "(error + ObjectAttrs) list" where
  "history_x =
     [Inr (object ''p/x'' 30 31 3), Inr (object ''p/x'' 20 0 2), Inr (object ''p/x'' 10 0 1)]"

text \<open>A bucket whose attributes cannot be read, a live store, and a backend that logs.\<close>

definition unreachable_bucket :: BucketHandle where
  "unreachable_bucket = \<lparr>Objects = (\<lambda>q. []), Attrs = Inl (Other ''unavailable'')\<rparr>"

definition live_store :: "time option \<Rightarrow> BucketHandle \<Rightarrow> gcsStorage" where
  "live_store pit b = \<lparr>BucketName = ''bkt'', Prefix = ''p/'', PointInTime = pit, bucket = b\<rparr>"

definition logging_backend :: "mutation \<Rightarrow> mutation list \<Rightarrow> error option \<times> mutation list" where
  "logging_backend m b = (None, b @ [m])"

text \<open>A backing array holding the history of \<open>x\<close>, oldest first.\<close>

definition array_x :: "versionMetadata list" where
  "array_x =
     [version ''x'' 10 False ''1'', version ''x'' 20 False ''2'', version ''x'' 30 True ''3'']"

text \<open>
  A listing that gives the objects named exactly \<open>q\<close> before all others, as a listing
  sorted by name does for the objects whose names begin with \<open>q\<close>.
\<close>

definition exact_first :: "string \<Rightarrow> ObjectAttrs list \<Rightarrow> bool" where
  "exact_first q objs = list_all (\<lambda>oi. Name oi \<noteq> q) (dropWhile (\<lambda>oi. Name oi = q) objs)"

text \<open>Two versions of \<open>p/x\<close> and then an object whose name only begins with \<open>p/x\<close>.\<close>

definition listing_x :: "ObjectAttrs list" where
  "listing_x = [object ''p/x'' 10 0 1, object ''p/x'' 20 0 2, object ''p/xy'' 15 0 1]"

text \<open>A callback that fails on every record, and a listing of two blobs.\<close>

definition failing_callback :: "('a, 'a list) callback" where
  "failing_callback x calls = (Some (Other ''stop''), calls @ [x])"

definition listing_a :: "(error + ObjectAttrs) list" where
  "listing_a = [Inr (object ''p/a1'' 10 0 1), Inr (object ''p/a2'' 20 0 2)]"

text \<open>
  Blob \<open>a1\<close> with one version; blob \<open>a2\<close> created at 20 and deleted by the
  delete marker of 30, its versions listed newest first.
\<close>

definition listing_newest_first :: "(error + ObjectAttrs) list" where
  "listing_newest_first =
     [Inr (object ''p/a1'' 10 0 1), Inr (object ''p/a2'' 30 31 3), Inr (object ''p/a2'' 20 0 2)]"

section \<open>Properties\<close>

lemmas time_defs = IsZero_def After_def Before_def

lemmas fixture_defs = bucket_of_def view_at_def object_def version_def

lemmas listing_defs = getMetadata_def getMetadata_visit_def GetMetadata_def
  getBlobVersions_def getBlobVersions_visit_def list_def
  listBlobVersions_def getObjectNameString_def getVersionMetadata_def toBlobID_def
  TrimPrefix_def FormatInt10_def

subsection \<open>The resolver on a newest-first sequence\<close>

text \<open>
  Claim C1. On a sequence sorted by descending timestamp the resolver should return the
  record with the greatest timestamp at or before the horizon. The code stops at the first
  record after the horizon and keeps what precedes it, then takes the last record kept:
  on the newest-first sequence 20, 10 with horizon 25 it returns the record of 10, and on
  30, 20, 10 with horizon 25 it finds nothing, although the record of 20 is there.
\<close>

theorem newestAtUnlessDeleted_descending_input:
  "newestAtUnlessDeleted [version ''x'' 20 False ''2'', version ''x'' 10 False ''1''] 25
     = (version ''x'' 10 False ''1'', True) \<and>
   newestAtUnlessDeleted
     [version ''x'' 30 True ''3'', version ''x'' 20 False ''2'', version ''x'' 10 False ''1''] 25
     = (versionMetadata_zero, False)"
  by (simp add: newestAtUnlessDeleted_def time_defs version_def)

text \<open>
  Claim C2. For the history of \<open>x\<close> listed newest first (30, 20, 10), \<^verbatim>\<open>GetMetadata\<close>
  should return the version of 20 at horizon 25 and fail with not-found at 35 and at 5.
  The code returns the version of 10 at 25 and at 35, and fails with not-found at 5.
\<close>

theorem GetMetadata_descending_history:
  "GetMetadata (view_at 25 history_x) ''x'' = Inr \<lparr>BlobID = [], Length = 7, Timestamp = 10\<rparr> \<and>
   GetMetadata (view_at 35 history_x) ''x'' = Inr \<lparr>BlobID = [], Length = 7, Timestamp = 10\<rparr> \<and>
   GetMetadata (view_at 5 history_x) ''x'' = Inl ErrBlobNotFound"
  by (simp add: listing_defs newestAtUnlessDeleted_def time_defs fixture_defs history_x_def
      Metadata.truncate_def versionMetadata.defs Metadata.defs)

subsection \<open>Construction\<close>

text \<open>
  Claim C5, as stated, has the view returned whenever a non-zero point in time is
  requested and versioning is not disabled. When the attributes of the bucket cannot be
  read, the code returns that error, wrapped, and no storage.
\<close>

theorem maybePointInTimeStore_attrs_error:
  "maybePointInTimeStore (live_store (Some 25) unreachable_bucket) (Some 25) =
     Returns (Inl (Wrapf (Other ''unavailable'') (CouldNotDetermineVersioning ''bkt'')))"
  by (simp add: maybePointInTimeStore_def live_store_def unreachable_bucket_def time_defs)

text \<open>
  Claim C5, amended. \<^verbatim>\<open>maybePointInTimeStore\<close> returns the live backend unchanged when
  the configured point in time is nil or zero. When it is non-zero and the caller passes a
  point in time: on a bucket whose versioning attribute is disabled it fails with the
  error naming the bucket; when the attributes cannot be read it fails with that error,
  wrapped with the name of the bucket; otherwise it returns the view, holding the backend
  and the point in time passed, inside the read-only wrapper.
\<close>

theorem maybePointInTimeStore_cases:
  "(PointInTime gcs = None \<or> PointInTime gcs = Some 0 \<longrightarrow>
      maybePointInTimeStore gcs p = Returns (Inr (GcsStorage gcs))) \<and>
   (\<forall>T t attrs. PointInTime gcs = Some T \<and> T \<noteq> 0 \<and> p = Some t \<and>
      Attrs (bucket gcs) = Inr attrs \<and> \<not> VersioningEnabled attrs \<longrightarrow>
      maybePointInTimeStore gcs p = Returns (Inl (Errorf (NonVersionedBucket (BucketName gcs))))) \<and>
   (\<forall>T t err. PointInTime gcs = Some T \<and> T \<noteq> 0 \<and> p = Some t \<and>
      Attrs (bucket gcs) = Inl err \<longrightarrow>
      maybePointInTimeStore gcs p =
        Returns (Inl (Wrapf err (CouldNotDetermineVersioning (BucketName gcs))))) \<and>
   (\<forall>T t attrs. PointInTime gcs = Some T \<and> T \<noteq> 0 \<and> p = Some t \<and>
      Attrs (bucket gcs) = Inr attrs \<and> VersioningEnabled attrs \<longrightarrow>
      (\<exists>v. maybePointInTimeStore gcs p = Returns (Inr (ReadOnlyStorage (PointInTimeStorage v))) \<and>
           pointInTime v = t \<and> gcsStorage.truncate v = gcs))"
  by (auto simp: maybePointInTimeStore_def NewWrapper_def time_defs gcsStorage.defs
      gcsPointInTimeStorage.defs)

theorem maybePointInTimeStore_cases_witness:
  "maybePointInTimeStore (live_store None (bucket_of [] True)) (Some 25) =
     Returns (Inr (GcsStorage (live_store None (bucket_of [] True)))) \<and>
   maybePointInTimeStore (live_store (Some 25) (bucket_of [] False)) (Some 25) =
     Returns (Inl (Errorf (NonVersionedBucket ''bkt''))) \<and>
   maybePointInTimeStore (live_store (Some 25) unreachable_bucket) (Some 25) =
     Returns (Inl (Wrapf (Other ''unavailable'') (CouldNotDetermineVersioning ''bkt''))) \<and>
   (\<exists>v. maybePointInTimeStore (live_store (Some 25) (bucket_of [] True)) (Some 25) =
          Returns (Inr (ReadOnlyStorage (PointInTimeStorage v))) \<and>
        pointInTime v = 25 \<and> gcsStorage.truncate v = live_store (Some 25) (bucket_of [] True))"
proof -
  have a: "PointInTime (live_store None (bucket_of [] True)) = None"
    by (simp add: live_store_def)
  have b: "PointInTime (live_store (Some 25) (bucket_of [] False)) = Some 25 \<and> (25::int) \<noteq> 0 \<and>
       Some (25::int) = Some 25 \<and>
       Attrs (bucket (live_store (Some 25) (bucket_of [] False))) =
         Inr \<lparr>VersioningEnabled = False\<rparr> \<and>
       \<not> VersioningEnabled \<lparr>VersioningEnabled = False\<rparr>"
    by (simp add: live_store_def bucket_of_def)
  have c: "PointInTime (live_store (Some 25) unreachable_bucket) = Some 25 \<and> (25::int) \<noteq> 0 \<and>
       Some (25::int) = Some 25 \<and>
       Attrs (bucket (live_store (Some 25) unreachable_bucket)) = Inl (Other ''unavailable'')"
    by (simp add: live_store_def unreachable_bucket_def)
  have d: "PointInTime (live_store (Some 25) (bucket_of [] True)) = Some 25 \<and> (25::int) \<noteq> 0 \<and>
       Some (25::int) = Some 25 \<and>
       Attrs (bucket (live_store (Some 25) (bucket_of [] True))) =
         Inr \<lparr>VersioningEnabled = True\<rparr> \<and>
       VersioningEnabled \<lparr>VersioningEnabled = True\<rparr>"
    by (simp add: live_store_def bucket_of_def)
  from a maybePointInTimeStore_cases [of "live_store None (bucket_of [] True)" "Some 25"]
  have 1: "maybePointInTimeStore (live_store None (bucket_of [] True)) (Some 25) =
     Returns (Inr (GcsStorage (live_store None (bucket_of [] True))))"
    by blast
  from b maybePointInTimeStore_cases [of "live_store (Some 25) (bucket_of [] False)" "Some 25"]
  have 2: "maybePointInTimeStore (live_store (Some 25) (bucket_of [] False)) (Some 25) =
     Returns (Inl (Errorf
       (NonVersionedBucket (BucketName (live_store (Some 25) (bucket_of [] False))))))"
    by blast
  from c maybePointInTimeStore_cases [of "live_store (Some 25) unreachable_bucket" "Some 25"]
  have 3: "maybePointInTimeStore (live_store (Some 25) unreachable_bucket) (Some 25) =
     Returns (Inl (Wrapf (Other ''unavailable'')
       (CouldNotDetermineVersioning (BucketName (live_store (Some 25) unreachable_bucket)))))"
    by blast
  from d maybePointInTimeStore_cases [of "live_store (Some 25) (bucket_of [] True)" "Some 25"]
  have 4: "\<exists>v. maybePointInTimeStore (live_store (Some 25) (bucket_of [] True)) (Some 25) =
          Returns (Inr (ReadOnlyStorage (PointInTimeStorage v))) \<and>
        pointInTime v = 25 \<and> gcsStorage.truncate v = live_store (Some 25) (bucket_of [] True)"
    by blast
  have n: "BucketName (live_store (Some 25) (bucket_of [] False)) = ''bkt'' \<and>
           BucketName (live_store (Some 25) unreachable_bucket) = ''bkt''"
    by (simp add: live_store_def)
  from 1 2 3 4 n show ?thesis by simp
qed

text \<open>
  Claim C6. A storage that \<^verbatim>\<open>maybePointInTimeStore\<close> returns for a non-zero point in
  time rejects every \<^verbatim>\<open>Put\<close> and \<^verbatim>\<open>Delete\<close> with an error, whatever the operation of
  the backend is, and leaves the state of the backend as it was.
\<close>

theorem readonly_view_rejects_mutation:
  assumes "PointInTime gcs = Some T" and "T \<noteq> 0"
    and "maybePointInTimeStore gcs p = Returns (Inr s)"
  shows "mutate backend s m b = (Some ErrReadOnly, b)"
  using assms
  by (auto simp: maybePointInTimeStore_def NewWrapper_def time_defs
      split: option.splits sum.splits if_splits)

theorem readonly_view_rejects_mutation_witness:
  "(\<exists>s. maybePointInTimeStore (live_store (Some 25) (bucket_of [] True)) (Some 25) =
          Returns (Inr s) \<and>
        mutate logging_backend s (Put ''x'' ''data'') [] = (Some ErrReadOnly, []) \<and>
        mutate logging_backend s (Delete ''x'') [] = (Some ErrReadOnly, [])) \<and>
   mutate logging_backend (GcsStorage (live_store (Some 25) (bucket_of [] True)))
     (Delete ''x'') [] = (None, [Delete ''x''])"
proof -
  have p: "PointInTime (live_store (Some 25) (bucket_of [] True)) = Some 25"
    by (simp add: live_store_def)
  have z: "(25::int) \<noteq> 0"
    by simp
  obtain s where s:
    "maybePointInTimeStore (live_store (Some 25) (bucket_of [] True)) (Some 25) = Returns (Inr s)"
    by (simp add: maybePointInTimeStore_def live_store_def bucket_of_def time_defs)
  have "mutate logging_backend s (Put ''x'' ''data'') [] = (Some ErrReadOnly, [])"
    by (rule readonly_view_rejects_mutation [OF p z s])
  moreover have "mutate logging_backend s (Delete ''x'') [] = (Some ErrReadOnly, [])"
    by (rule readonly_view_rejects_mutation [OF p z s])
  moreover have
    "mutate logging_backend (GcsStorage (live_store (Some 25) (bucket_of [] True)))
       (Delete ''x'') [] = (None, [Delete ''x''])"
    by (simp add: logging_backend_def)
  ultimately show ?thesis
    using s by blast
qed

subsection \<open>Version records\<close>

text \<open>
  Claim C9. The record built from a listing entry is a delete marker exactly when the
  entry's deletion time is non-zero and either no point in time is configured or the
  deletion time is strictly before it; a version deleted at or after the point in time is
  not a delete marker.
\<close>

theorem getVersionMetadata_IsDeleteMarker:
  "(IsDeleteMarker (getVersionMetadata gcs prefix oi) \<longleftrightarrow>
      Deleted oi \<noteq> 0 \<and>
      (PointInTime gcs = None \<or> (\<exists>pit. PointInTime gcs = Some pit \<and> Deleted oi < pit))) \<and>
   (\<forall>pit. PointInTime gcs = Some pit \<and> pit \<le> Deleted oi \<longrightarrow>
      \<not> IsDeleteMarker (getVersionMetadata gcs prefix oi))"
  by (auto simp: getVersionMetadata_def time_defs split: option.splits)

theorem getVersionMetadata_IsDeleteMarker_witness:
  "\<not> IsDeleteMarker (getVersionMetadata (view_at 25 []) ''p/x'' (object ''p/x'' 20 25 2)) \<and>
   \<not> IsDeleteMarker (getVersionMetadata (view_at 25 []) ''p/x'' (object ''p/x'' 20 30 2)) \<and>
   IsDeleteMarker (getVersionMetadata (view_at 25 []) ''p/x'' (object ''p/x'' 20 24 2))"
proof -
  have p: "PointInTime (view_at 25 []) = Some 25"
    by (simp add: view_at_def)
  have d: "Deleted (object ''p/x'' 20 25 2) = 25 \<and> Deleted (object ''p/x'' 20 30 2) = 30 \<and>
           Deleted (object ''p/x'' 20 24 2) = 24"
    by (simp add: object_def)
  from p d getVersionMetadata_IsDeleteMarker [of "view_at 25 []" "''p/x''" "object ''p/x'' 20 25 2"]
  have 1: "\<not> IsDeleteMarker (getVersionMetadata (view_at 25 []) ''p/x'' (object ''p/x'' 20 25 2))"
    by simp
  from p d getVersionMetadata_IsDeleteMarker [of "view_at 25 []" "''p/x''" "object ''p/x'' 20 30 2"]
  have 2: "\<not> IsDeleteMarker (getVersionMetadata (view_at 25 []) ''p/x'' (object ''p/x'' 20 30 2))"
    by simp
  from p d getVersionMetadata_IsDeleteMarker [of "view_at 25 []" "''p/x''" "object ''p/x'' 20 24 2"]
  have 3: "IsDeleteMarker (getVersionMetadata (view_at 25 []) ''p/x'' (object ''p/x'' 20 24 2))"
    by simp
  from 1 2 3 show ?thesis
    by simp
qed

subsection \<open>Empty listings\<close>

text \<open>
  Claim C10. When the enumeration for the prefix yields no object, \<^verbatim>\<open>ListBlobs\<close>
  returns nil and its callback is never called, while \<^verbatim>\<open>getBlobVersions\<close> fails with
  not-found, its callback never called either.
\<close>

theorem empty_listing:
  assumes "Objects (bucket gcs) (getObjectNameString gcs prefix) = []"
  shows "ListBlobs gcs prefix (traced cb) (s, []) = (None, (s, [])) \<and>
         getBlobVersions gcs prefix (traced cb') (s', []) = (Some ErrBlobNotFound, (s', []))"
  using assms
  by (simp add: ListBlobs_def listBlobVersions_def list_def getBlobVersions_def
      getBlobVersions_visit_def newestAtUnlessDeleted_def)

theorem empty_listing_witness:
  "ListBlobs (view_at 25 []) ''a'' (traced record_call) ([], []) = (None, ([], [])) \<and>
   getBlobVersions (view_at 25 []) ''a'' (traced record_call) ([], []) =
     (Some ErrBlobNotFound, ([], []))"
proof -
  have h: "Objects (bucket (view_at 25 [])) (getObjectNameString (view_at 25 []) ''a'') = []"
    by (simp add: view_at_def bucket_of_def)
  show ?thesis
    by (rule empty_listing [OF h])
qed

subsection \<open>The resolver reads and never writes\<close>

declare getOlderThan_slice.simps [simp del]

lemma getOlderThan_is_prefix: "getOlderThan xs t = take (length (getOlderThan xs t)) xs"
  by (induction xs) auto

lemma getOlderThan_length_le: "length (getOlderThan xs t) \<le> length xs"
  by (induction xs) auto

lemma contents_length: "slice_ok mem vs \<Longrightarrow> length (contents mem vs) = len vs"
  by (simp add: contents_def slice_ok_def)

lemma contents_nth: "slice_ok mem vs \<Longrightarrow> i < len vs \<Longrightarrow> contents mem vs ! i = mem ! (off vs + i)"
  by (simp add: contents_def slice_ok_def)

lemma drop_contents:
  "slice_ok mem vs \<Longrightarrow> i < len vs \<Longrightarrow>
   drop i (contents mem vs) = mem ! (off vs + i) # drop (Suc i) (contents mem vs)"
  using Cons_nth_drop_Suc [of i "contents mem vs"]
  by (simp add: contents_length contents_nth)

lemma getOlderThan_slice_scan:
  "slice_ok mem vs \<Longrightarrow> i \<le> len vs \<Longrightarrow>
   getOlderThan_slice i mem vs t =
     (vs\<lparr>len := i + length (getOlderThan (drop i (contents mem vs)) t)\<rparr>, mem)"
proof (induction i mem vs t rule: getOlderThan_slice.induct)
  case (1 i mem vs t)
  show ?case
  proof (cases "i < len vs")
    case True
    note d = drop_contents [OF "1.prems"(1) True]
    show ?thesis
    proof (cases "After (Timestamp (mem ! (off vs + i))) t")
      case True
      with \<open>i < len vs\<close> d show ?thesis
        by (subst getOlderThan_slice.simps) simp
    next
      case False
      with \<open>i < len vs\<close> have "getOlderThan_slice i mem vs t = getOlderThan_slice (Suc i) mem vs t"
        by (subst getOlderThan_slice.simps) simp
      also have "\<dots> = (vs\<lparr>len := Suc i + length (getOlderThan (drop (Suc i) (contents mem vs)) t)\<rparr>, mem)"
        using "1.IH" [OF \<open>i < len vs\<close> False "1.prems"(1)] \<open>i < len vs\<close> by simp
      finally show ?thesis
        using d False by simp
    qed
  next
    case False
    with "1.prems" have "i = len vs" by simp
    with "1.prems" show ?thesis
      by (subst getOlderThan_slice.simps) (simp add: contents_length)
  qed
qed

lemma newestAtUnlessDeleted_slice_eq:
  assumes "slice_ok mem vs"
  shows "newestAtUnlessDeleted_slice mem vs t = (newestAtUnlessDeleted (contents mem vs) t, mem)"
proof -
  let ?c = "contents mem vs"
  let ?k = "length (getOlderThan ?c t)"
  have scan: "getOlderThan_slice 0 mem vs t = (vs\<lparr>len := ?k\<rparr>, mem)"
    using getOlderThan_slice_scan [OF assms, of 0 t] by simp
  have k: "?k \<le> len vs"
    using getOlderThan_length_le [of ?c t] contents_length [OF assms] by simp
  show ?thesis
  proof (cases "?k = 0")
    case True
    then show ?thesis
      using scan by (simp add: newestAtUnlessDeleted_slice_def newestAtUnlessDeleted_def)
  next
    case False
    with k have lt: "?k - 1 < len vs" by arith
    define v where "v = mem ! (off vs + (?k - 1))"
    have "getOlderThan ?c t ! (?k - 1) = take ?k ?c ! (?k - 1)"
      using getOlderThan_is_prefix [of ?c t] by simp
    also have "\<dots> = ?c ! (?k - 1)"
      using False by simp
    also have "\<dots> = v"
      unfolding v_def by (rule contents_nth [OF assms lt])
    finally have pure: "getOlderThan ?c t ! (?k - 1) = v" .
    have lhs: "newestAtUnlessDeleted_slice mem vs t = ((v, \<not> IsDeleteMarker v), mem)"
      unfolding newestAtUnlessDeleted_slice_def scan using False by (simp add: v_def Let_def)
    have rhs: "newestAtUnlessDeleted ?c t = (v, \<not> IsDeleteMarker v)"
      unfolding newestAtUnlessDeleted_def using False pure by (simp add: Let_def)
    show ?thesis
      by (simp only: lhs rhs)
  qed
qed

text \<open>
  Claim C8. The resolver is a function of the entries of its slice and of the horizon: run
  on a slice of a backing array it returns what the resolver on lists returns on the
  entries of the slice, and leaves the array as it was; so a second run returns the same
  value and flag, and the entries keep their contents and order.
\<close>

theorem resolver_pure:
  assumes "slice_ok mem vs"
  shows "newestAtUnlessDeleted_slice mem vs t = (newestAtUnlessDeleted (contents mem vs) t, mem) \<and>
    (case newestAtUnlessDeleted_slice mem vs t of
       (r1, mem1) \<Rightarrow>
         (case newestAtUnlessDeleted_slice mem1 vs t of
            (r2, mem2) \<Rightarrow> r1 = r2 \<and> mem1 = mem \<and> mem2 = mem))"
  by (simp add: newestAtUnlessDeleted_slice_eq [OF assms])

theorem resolver_pure_witness:
  "slice_ok array_x \<lparr>off = 0, len = 3\<rparr> \<and>
   newestAtUnlessDeleted_slice array_x \<lparr>off = 0, len = 3\<rparr> 25 =
     ((version ''x'' 20 False ''2'', True), array_x)"
proof -
  have h: "slice_ok array_x \<lparr>off = 0, len = 3\<rparr>"
    by (simp add: slice_ok_def array_x_def)
  have c: "newestAtUnlessDeleted (contents array_x \<lparr>off = 0, len = 3\<rparr>) 25 = (version ''x'' 20 False ''2'', True)"
    by (simp add: contents_def array_x_def newestAtUnlessDeleted_def version_def After_def)
  from resolver_pure [OF h, of 25] c h show ?thesis
    by simp
qed

subsection \<open>Versions of one blob\<close>

lemma list_loop_onlyMatching:
  "list_loop gcs q True cb (map Inr objs) s =
   list_loop gcs q False cb (map Inr (takeWhile (\<lambda>oi. Name oi = q) objs)) s"
  by (induction objs arbitrary: s) (auto split: prod.splits option.splits)



lemma exact_first_Cons:
  "exact_first q (oi # objs) =
     (if Name oi = q then exact_first q objs else (\<forall>x \<in> set objs. Name x \<noteq> q))"
  by (simp add: exact_first_def list_all_iff)

lemma takeWhile_exact_first:
  "exact_first q objs \<Longrightarrow> (takeWhile (\<lambda>oi. Name oi = q) objs = []) = (\<forall>oi \<in> set objs. Name oi \<noteq> q)"
proof (cases objs)
  case Nil
  then show ?thesis by simp
next
  case (Cons oi os)
  assume "exact_first q objs"
  with Cons show ?thesis
    by (cases "Name oi = q") (simp_all add: exact_first_Cons)
qed


lemma takeWhile_exact_filter:
  "exact_first q objs \<Longrightarrow>
   takeWhile (\<lambda>oi. Name oi = q) objs = filter (\<lambda>oi. Name oi = q) objs"
proof (induction objs)
  case Nil
  then show ?case by simp
next
  case (Cons oi os)
  show ?case
  proof (cases "Name oi = q")
    case True
    with Cons show ?thesis by (simp add: exact_first_Cons)
  next
    case False
    with Cons.prems have "\<forall>x \<in> set os. Name x \<noteq> q"
      by (simp add: exact_first_Cons)
    then have "filter (\<lambda>oi. Name oi = q) os = []"
      by (simp add: filter_empty_conv)
    with False show ?thesis by simp
  qed
qed



text \<open>
  A listing sorted by name, of objects whose names all begin with \<open>q\<close>, gives the
  objects named exactly \<open>q\<close> first.
\<close>

lemma prefix_le: "(q :: string) \<le> q @ s"
  by (cases s) (auto simp: list_le_def list_less_def lexord_append_rightI)

lemma sorted_names_exact_first:
  assumes "sorted (map Name objs)" and "\<forall>oi \<in> set objs. take (length q) (Name oi) = q"
  shows "exact_first q objs"
  using assms
proof (induction objs)
  case Nil
  then show ?case by (simp add: exact_first_def)
next
  case (Cons oi objs)
  show ?case
  proof (cases "Name oi = q")
    case True
    with Cons show ?thesis by (simp add: exact_first_Cons)
  next
    case False
    have "\<forall>x \<in> set objs. Name x \<noteq> q"
    proof
      fix x
      assume x: "x \<in> set objs"
      with Cons.prems(1) have le: "Name oi \<le> Name x" by simp
      from Cons.prems(2) have "Name oi = q @ drop (length q) (Name oi)"
        using append_take_drop_id [of "length q" "Name oi"] by simp
      then have "q \<le> Name oi"
        using prefix_le [of q "drop (length q) (Name oi)"] by simp
      show "Name x \<noteq> q"
      proof
        assume "Name x = q"
        with le \<open>q \<le> Name oi\<close> have "Name oi = q" by simp
        with False show False by simp
      qed
    qed
    with False show ?thesis by (simp add: exact_first_Cons)
  qed
qed

lemma getBlobVersions_visit_apply:
  "getBlobVersions_visit cb vm (f, s) = (case cb vm s of (r, s') \<Rightarrow> (r, (True, s')))"
  by (simp add: getBlobVersions_visit_def)

lemma list_loop_found:
  "list_loop gcs q False (getBlobVersions_visit cb) (map Inr os) (f, s) = (res, (f', s'))
   \<Longrightarrow> f' = (f \<or> os \<noteq> []) \<and> (case res of None \<Rightarrow> True | Some err \<Rightarrow> is_wrapped err)"
proof (induction os arbitrary: f s)
  case Nil
  then show ?case by simp
next
  case (Cons oi os)
  obtain r s1 where c: "cb (getVersionMetadata gcs q oi) s = (r, s1)"
    by (cases "cb (getVersionMetadata gcs q oi) s")
  show ?case
  proof (cases r)
    case None
    with Cons.prems c
    have "list_loop gcs q False (getBlobVersions_visit cb) (map Inr os) (True, s1) = (res, (f', s'))"
      by (simp add: getBlobVersions_visit_apply)
    from Cons.IH [OF this] show ?thesis by simp
  next
    case (Some e)
    with Cons.prems c show ?thesis by (auto simp: getBlobVersions_visit_apply)
  qed
qed

lemma list_loop_record:
  "list_loop gcs q False (getBlobVersions_visit record_call) (map Inr os) (f, calls)
   = (None, (f \<or> os \<noteq> [], calls @ map (getVersionMetadata gcs q) os))"
  by (induction os arbitrary: f calls) (simp_all add: record_call_def getBlobVersions_visit_apply)

lemma getBlobVersions_NotFound:
  assumes "Objects (bucket gcs) (getObjectNameString gcs b) = map Inr objs"
  shows "(fst (getBlobVersions gcs b cb s) = Some ErrBlobNotFound) =
         (takeWhile (\<lambda>oi. Name oi = getObjectNameString gcs b) objs = [])"
proof -
  let ?q = "getObjectNameString gcs b"
  let ?os = "takeWhile (\<lambda>oi. Name oi = ?q) objs"
  let ?run = "list_loop gcs ?q False (getBlobVersions_visit cb) (map Inr ?os) (False, s)"
  obtain res f' s' where run: "?run = (res, (f', s'))"
    by (cases ?run) auto
  from list_loop_found [OF run]
  have f': "f' = (?os \<noteq> [])" and w: "case res of None \<Rightarrow> True | Some err \<Rightarrow> is_wrapped err"
    by simp_all
  have g: "getBlobVersions gcs b cb s =
    (case res of Some err \<Rightarrow> (Some err, s')
     | None \<Rightarrow> if \<not> f' then (Some ErrBlobNotFound, s') else (None, s'))"
    using assms run
    by (simp add: getBlobVersions_def list_def list_loop_onlyMatching split: option.splits)
  show ?thesis
  proof (cases res)
    case None
    with g f' show ?thesis by simp
  next
    case (Some err)
    with w have "is_wrapped err" by simp
    then have ne: "err \<noteq> ErrBlobNotFound" by auto
    have "?os \<noteq> []"
    proof
      assume "?os = []"
      with run Some show False by simp
    qed
    with g Some ne show ?thesis by simp
  qed
qed


text \<open>
  Claim C4. Over an enumeration that ends without a backend error, \<^verbatim>\<open>getBlobVersions\<close>
  passes to its callback the records of the leading objects whose full name equals the
  queried name and of no other object. When the backend lists the objects of that exact
  name first, these are all the objects of that name, and the call fails with not-found
  exactly when the enumeration has no object of that name, whatever the callback does.
\<close>

theorem getBlobVersions_exact_name:
  assumes "Objects (bucket gcs) (getObjectNameString gcs b) = map Inr objs"
  shows
    "snd (getBlobVersions gcs b record_call []) =
       map (getVersionMetadata gcs (getObjectNameString gcs b))
         (takeWhile (\<lambda>oi. Name oi = getObjectNameString gcs b) objs) \<and>
     (\<forall>vm \<in> set (snd (getBlobVersions gcs b record_call [])).
        \<exists>oi \<in> set objs. Name oi = getObjectNameString gcs b \<and>
          vm = getVersionMetadata gcs (getObjectNameString gcs b) oi) \<and>
     (exact_first (getObjectNameString gcs b) objs \<longrightarrow>
       snd (getBlobVersions gcs b record_call []) =
         map (getVersionMetadata gcs (getObjectNameString gcs b))
           (filter (\<lambda>oi. Name oi = getObjectNameString gcs b) objs) \<and>
       ((fst (getBlobVersions gcs b cb s) = Some ErrBlobNotFound) =
        (\<forall>oi \<in> set objs. Name oi \<noteq> getObjectNameString gcs b)))"
proof -
  let ?q = "getObjectNameString gcs b"
  have rec: "snd (getBlobVersions gcs b record_call []) =
       map (getVersionMetadata gcs ?q) (takeWhile (\<lambda>oi. Name oi = ?q) objs)"
    using assms
    by (simp add: getBlobVersions_def list_def list_loop_onlyMatching list_loop_record Let_def)
  have only: "\<forall>vm \<in> set (snd (getBlobVersions gcs b record_call [])).
        \<exists>oi \<in> set objs. Name oi = ?q \<and> vm = getVersionMetadata gcs ?q oi"
  proof
    fix vm
    assume "vm \<in> set (snd (getBlobVersions gcs b record_call []))"
    with rec obtain oi where oi: "oi \<in> set (takeWhile (\<lambda>oi. Name oi = ?q) objs)"
      and vm: "vm = getVersionMetadata gcs ?q oi"
      by auto
    from oi have "oi \<in> set objs" and "Name oi = ?q"
      by (auto dest: set_takeWhileD)
    with vm show "\<exists>oi \<in> set objs. Name oi = ?q \<and> vm = getVersionMetadata gcs ?q oi"
      by blast
  qed
  have nf: "(fst (getBlobVersions gcs b cb s) = Some ErrBlobNotFound) =
         (takeWhile (\<lambda>oi. Name oi = ?q) objs = [])"
    by (rule getBlobVersions_NotFound [OF assms])
  have "exact_first ?q objs \<longrightarrow>
       snd (getBlobVersions gcs b record_call []) =
         map (getVersionMetadata gcs ?q) (filter (\<lambda>oi. Name oi = ?q) objs) \<and>
       ((fst (getBlobVersions gcs b cb s) = Some ErrBlobNotFound) =
        (\<forall>oi \<in> set objs. Name oi \<noteq> ?q))"
  proof
    assume e: "exact_first ?q objs"
    show "snd (getBlobVersions gcs b record_call []) =
         map (getVersionMetadata gcs ?q) (filter (\<lambda>oi. Name oi = ?q) objs) \<and>
       ((fst (getBlobVersions gcs b cb s) = Some ErrBlobNotFound) =
        (\<forall>oi \<in> set objs. Name oi \<noteq> ?q))"
      using rec nf takeWhile_exact_first [OF e] takeWhile_exact_filter [OF e]
      by (simp only:)
  qed
  with rec only show ?thesis
    by blast
qed

theorem getBlobVersions_exact_name_witness:
  "Objects (bucket (view_at 25 (map Inr listing_x))) (getObjectNameString (view_at 25 (map Inr listing_x)) ''x'')
     = map Inr listing_x \<and>
   exact_first ''p/x'' listing_x \<and>
   snd (getBlobVersions (view_at 25 (map Inr listing_x)) ''x'' record_call []) =
     [version [] 10 False ''1'', version [] 20 False ''2''] \<and>
   fst (getBlobVersions (view_at 25 (map Inr listing_x)) ''x'' record_call []) \<noteq> Some ErrBlobNotFound \<and>
   fst (getBlobVersions (view_at 25 (map Inr listing_x)) ''y'' record_call []) = Some ErrBlobNotFound"
proof -
  let ?g = "view_at 25 (map Inr listing_x)"
  have q: "getObjectNameString ?g ''x'' = ''p/x''" and q': "getObjectNameString ?g ''y'' = ''p/y''"
    by (simp_all add: getObjectNameString_def view_at_def)
  have h: "Objects (bucket ?g) (getObjectNameString ?g ''x'') = map Inr listing_x"
    and h': "Objects (bucket ?g) (getObjectNameString ?g ''y'') = map Inr listing_x"
    by (simp_all add: view_at_def bucket_of_def)
  have e: "exact_first ''p/x'' listing_x" and e': "exact_first ''p/y'' listing_x"
    by (simp_all add: exact_first_def listing_x_def object_def)
  have f: "map (getVersionMetadata ?g ''p/x'') (filter (\<lambda>oi. Name oi = ''p/x'') listing_x) =
      [version [] 10 False ''1'', version [] 20 False ''2'']"
    by (simp add: listing_x_def object_def version_def getVersionMetadata_def toBlobID_def
        TrimPrefix_def FormatInt10_def view_at_def time_defs)
  have n: "(\<forall>oi \<in> set listing_x. Name oi \<noteq> ''p/x'') = False"
    and n': "(\<forall>oi \<in> set listing_x. Name oi \<noteq> ''p/y'') = True"
    by (simp_all add: listing_x_def object_def)
  note x = getBlobVersions_exact_name [OF h, of record_call "[]", unfolded q]
  note y = getBlobVersions_exact_name [OF h', of record_call "[]", unfolded q']
  from conjunct2 [OF conjunct2 [OF x]] e
  have x': "snd (getBlobVersions ?g ''x'' record_call []) =
         map (getVersionMetadata ?g ''p/x'') (filter (\<lambda>oi. Name oi = ''p/x'') listing_x) \<and>
       ((fst (getBlobVersions ?g ''x'' record_call []) = Some ErrBlobNotFound) =
        (\<forall>oi \<in> set listing_x. Name oi \<noteq> ''p/x''))"
    by (rule mp)
  from conjunct2 [OF conjunct2 [OF y]] e'
  have y': "snd (getBlobVersions ?g ''y'' record_call []) =
         map (getVersionMetadata ?g ''p/y'') (filter (\<lambda>oi. Name oi = ''p/y'') listing_x) \<and>
       ((fst (getBlobVersions ?g ''y'' record_call []) = Some ErrBlobNotFound) =
        (\<forall>oi \<in> set listing_x. Name oi \<noteq> ''p/y''))"
    by (rule mp)
  from x' have 1: "snd (getBlobVersions ?g ''x'' record_call []) =
      [version [] 10 False ''1'', version [] 20 False ''2''] \<and>
        fst (getBlobVersions ?g ''x'' record_call []) \<noteq> Some ErrBlobNotFound"
    by (simp only: f n simp_thms)
  from y' have 2: "fst (getBlobVersions ?g ''y'' record_call []) = Some ErrBlobNotFound"
    by (simp only: n' simp_thms)
  from h e 1 2 show ?thesis
    by simp
qed

subsection \<open>Errors of the callback\<close>

lemma all_nil_simps [simp]:
  "all_nil []"
  "all_nil (tr @ [(x, r)]) = (all_nil tr \<and> r = None)"
  by (simp_all add: all_nil_def)

lemma traced_apply:
  "traced cb x (s, tr) = (case cb x s of (r, s') \<Rightarrow> (r, (s', tr @ [(x, r)])))"
  by (simp add: traced_def)

lemma ListBlobs_as_finish:
  "ListBlobs gcs p cb s =
     ListBlobs_finish gcs cb
       (list_loop gcs (getObjectNameString gcs p) False (ListBlobs_visit gcs cb)
          (Objects (bucket gcs) (getObjectNameString gcs p)) ([], [], s))"
  by (simp add: ListBlobs_def ListBlobs_finish_def listBlobVersions_def list_def Let_def)

lemma object_runs_single: "object_runs gcs q [oi] = [[oi]]"
  by simp

lemma object_runs_Cons_same:
  "object_runs gcs q objs = r # rs \<Longrightarrow> blob_of gcs q (hd r) = blob_of gcs q oi \<Longrightarrow>
   object_runs gcs q (oi # objs) = (oi # r) # rs"
  by simp

lemma object_runs_Cons_other:
  "object_runs gcs q objs = r # rs \<Longrightarrow> blob_of gcs q (hd r) \<noteq> blob_of gcs q oi \<Longrightarrow>
   object_runs gcs q (oi # objs) = [oi] # r # rs"
  by simp

lemma object_runs_Cons_hd: "\<exists>r rs. object_runs gcs q (oi # objs) = (oi # r) # rs"
proof (cases "object_runs gcs q objs")
  case Nil
  then show ?thesis by simp
next
  case (Cons r rs)
  then show ?thesis by (cases "blob_of gcs q (hd r) = blob_of gcs q oi") simp_all
qed

declare object_runs.simps(2) [simp del]

lemma object_runs_same:
  "\<forall>oi \<in> set cur. blob_of gcs q oi = pid \<Longrightarrow> cur \<noteq> [] \<Longrightarrow> object_runs gcs q cur = [cur]"
proof (induction cur)
  case Nil
  then show ?case by simp
next
  case (Cons oi cur)
  show ?case
  proof (cases "cur = []")
    case True
    then show ?thesis by (simp add: object_runs_single)
  next
    case False
    with Cons.IH Cons.prems have r: "object_runs gcs q cur = [cur]" by simp
    from False Cons.prems have "blob_of gcs q (hd cur) = blob_of gcs q oi" by simp
    from object_runs_Cons_same [OF r this] show ?thesis .
  qed
qed

lemma object_runs_append_other:
  "\<forall>oi \<in> set cur. blob_of gcs q oi = pid \<Longrightarrow> blob_of gcs q x \<noteq> pid \<Longrightarrow> cur \<noteq> [] \<Longrightarrow>
   object_runs gcs q (cur @ x # xs) = cur # object_runs gcs q (x # xs)"
proof (induction cur)
  case Nil
  then show ?case by simp
next
  case (Cons oi cur)
  obtain y ys where rr: "object_runs gcs q (x # xs) = (x # y) # ys"
    using object_runs_Cons_hd [of gcs q x xs] by blast
  show ?case
  proof (cases "cur = []")
    case True
    from Cons.prems have "blob_of gcs q (hd (x # y)) \<noteq> blob_of gcs q oi" by simp
    from object_runs_Cons_other [OF rr this] rr True show ?thesis by simp
  next
    case False
    with Cons.IH Cons.prems
    have r: "object_runs gcs q (cur @ x # xs) = cur # object_runs gcs q (x # xs)" by simp
    from False Cons.prems have "blob_of gcs q (hd cur) = blob_of gcs q oi" by simp
    from object_runs_Cons_same [OF r this] show ?thesis by simp
  qed
qed

lemma object_runs_append_same:
  assumes "\<forall>oi \<in> set cur. blob_of gcs q oi = pid" and "blob_of gcs q x = pid"
  shows "\<forall>oi \<in> set (cur @ [x]). blob_of gcs q oi = pid"
  using assms by simp


lemma visible_Nil: "visible t [] = None"
  by (simp add: visible_def newestAtUnlessDeleted_def)

lemma run_visible_Nil: "run_visible gcs q [] = None"
  by (simp add: run_visible_def visible_Nil)

lemma finish_error:
  "ListBlobs_finish gcs cb (Some err, (pid, vs, s)) =
     (Some (Wrapf err (CouldNotListBlobVersionsAtTime (pointInTime gcs))), s)"
  by (simp add: ListBlobs_finish_def)

lemma finish_flush:
  "ListBlobs_finish gcs cb (None, (pid, map (getVersionMetadata gcs q) cur, s)) =
     (case run_visible gcs q cur of None \<Rightarrow> (None, s) | Some m \<Rightarrow> cb m s)"
proof -
  let ?vs = "map (getVersionMetadata gcs q) cur"
  obtain v found where n: "newestAtUnlessDeleted ?vs (pointInTime gcs) = (v, found)"
    by (cases "newestAtUnlessDeleted ?vs (pointInTime gcs)")
  obtain r s1 where c: "cb (Metadata.truncate v) s = (r, s1)"
    by (cases "cb (Metadata.truncate v) s")
  from n c show ?thesis
    by (cases found; cases r) (simp_all add: ListBlobs_finish_def run_visible_def visible_def)
qed

lemma visit_same:
  "BlobID vm = pid \<Longrightarrow> ListBlobs_visit gcs cb vm (pid, vs, s) = (None, (pid, vs @ [vm], s))"
  by (simp add: ListBlobs_visit_def)

lemma visit_other_hidden:
  "BlobID vm \<noteq> pid \<Longrightarrow> visible (pointInTime gcs) vs = None \<Longrightarrow>
   ListBlobs_visit gcs cb vm (pid, vs, s) = (None, (BlobID vm, [vm], s))"
  by (cases "newestAtUnlessDeleted vs (pointInTime gcs)")
     (auto simp: ListBlobs_visit_def visible_def split: bool.splits)

lemma visit_other_visible:
  "BlobID vm \<noteq> pid \<Longrightarrow> visible (pointInTime gcs) vs = Some m \<Longrightarrow>
   ListBlobs_visit gcs cb vm (pid, vs, s) =
     (case cb m s of
        (Some e, s') \<Rightarrow> (Some e, (pid, vs, s'))
      | (None, s') \<Rightarrow> (None, (BlobID vm, [vm], s')))"
  by (cases "newestAtUnlessDeleted vs (pointInTime gcs)")
     (auto simp: ListBlobs_visit_def visible_def split: bool.splits)

lemma ListBlobs_by_runs_pending:
  assumes "\<forall>oi \<in> set cur. blob_of gcs q oi = pid"
  shows "ListBlobs_by_runs gcs q cb (object_runs gcs q cur) fin s =
     (case fin of
        Some err \<Rightarrow> (Some (enumeration_failed gcs q err), s)
      | None \<Rightarrow> (case run_visible gcs q cur of None \<Rightarrow> (None, s) | Some m \<Rightarrow> cb m s))"
proof (cases "cur = []")
  case True
  then show ?thesis by (cases fin) (simp_all add: run_visible_Nil)
next
  case False
  with assms have "object_runs gcs q cur = [cur]" by (rule object_runs_same)
  then show ?thesis by simp
qed

lemma ListBlobs_by_runs_next:
  assumes "\<forall>oi \<in> set cur. blob_of gcs q oi = pid" and "blob_of gcs q x \<noteq> pid"
  shows "ListBlobs_by_runs gcs q cb (object_runs gcs q (cur @ x # xs)) fin s =
     (case run_visible gcs q cur of
        None \<Rightarrow> ListBlobs_by_runs gcs q cb (object_runs gcs q (x # xs)) fin s
      | Some m \<Rightarrow>
          (case cb m s of
             (Some e, s') \<Rightarrow> (Some (callback_failed_at gcs x e), s')
           | (None, s') \<Rightarrow> ListBlobs_by_runs gcs q cb (object_runs gcs q (x # xs)) fin s'))"
proof (cases "cur = []")
  case True
  then show ?thesis by (simp add: run_visible_Nil)
next
  case False
  obtain y ys where rr: "object_runs gcs q (x # xs) = (x # y) # ys"
    using object_runs_Cons_hd [of gcs q x xs] by blast
  from assms False have "object_runs gcs q (cur @ x # xs) = cur # object_runs gcs q (x # xs)"
    by (rule object_runs_append_other)
  with rr show ?thesis by (simp split: option.splits prod.splits)
qed


lemma loop_refines:
  assumes "\<forall>oi \<in> set cur. blob_of gcs q oi = pid"
  shows "ListBlobs_finish gcs cb
           (list_loop gcs q False (ListBlobs_visit gcs cb) items
              (pid, map (getVersionMetadata gcs q) cur, s)) =
         ListBlobs_by_runs gcs q cb (object_runs gcs q (cur @ leading_objects items)) (backend_error items) s"
  using assms
proof (induction items arbitrary: pid cur s)
  case Nil
  from ListBlobs_by_runs_pending [OF Nil.prems, of cb None s] show ?case
    by (simp add: finish_flush)
next
  case (Cons item items)
  let ?V = "ListBlobs_visit gcs cb"
  let ?vs = "map (getVersionMetadata gcs q) cur"
  show ?case
  proof (cases item)
    case (Inl err)
    with ListBlobs_by_runs_pending [OF Cons.prems, of cb "Some err" s] show ?thesis
      by (simp add: finish_error enumeration_failed_def)
  next
    case (Inr oi)
    let ?r = "getVersionMetadata gcs q oi"
    have lo: "leading_objects (item # items) = oi # leading_objects items"
      and be: "backend_error (item # items) = backend_error items"
      using Inr by simp_all
    show ?thesis
    proof (cases "blob_of gcs q oi = pid")
      case True
      then have v: "?V ?r (pid, ?vs, s) = (None, (pid, map (getVersionMetadata gcs q) (cur @ [oi]), s))"
        by (simp add: visit_same blob_of_def)
      have step: "list_loop gcs q False ?V (item # items) (pid, ?vs, s) =
          list_loop gcs q False ?V items (pid, map (getVersionMetadata gcs q) (cur @ [oi]), s)"
        using Inr v by (simp add: Let_def)
      from Cons.prems True have inv: "\<forall>x \<in> set (cur @ [oi]). blob_of gcs q x = pid"
        by simp
      show ?thesis
        unfolding step lo be using Cons.IH [OF inv, of s] by simp
    next
      case False
      then have ne: "BlobID ?r \<noteq> pid"
        by (simp add: blob_of_def)
      have inv: "\<forall>x \<in> set [oi]. blob_of gcs q x = blob_of gcs q oi"
        by simp
      note next_run = ListBlobs_by_runs_next [OF Cons.prems False, of cb "leading_objects items"
          "backend_error items" s]
      show ?thesis
      proof (cases "run_visible gcs q cur")
        case None
        then have "visible (pointInTime gcs) ?vs = None"
          by (simp add: run_visible_def)
        from visit_other_hidden [OF ne this]
        have v: "?V ?r (pid, ?vs, s) = (None, (BlobID ?r, [?r], s))" .
        have step: "list_loop gcs q False ?V (item # items) (pid, ?vs, s) =
            list_loop gcs q False ?V items (blob_of gcs q oi, map (getVersionMetadata gcs q) [oi], s)"
          using Inr v by (simp add: Let_def blob_of_def)
        show ?thesis
          unfolding step lo be using Cons.IH [OF inv, of s] next_run None by simp
      next
        case (Some m)
        then have vis: "visible (pointInTime gcs) ?vs = Some m"
          by (simp add: run_visible_def)
        obtain r s1 where c: "cb m s = (r, s1)"
          by (cases "cb m s")
        show ?thesis
        proof (cases r)
          case None
          with visit_other_visible [OF ne vis, of cb s] c
          have v: "?V ?r (pid, ?vs, s) = (None, (BlobID ?r, [?r], s1))"
            by simp
          have step: "list_loop gcs q False ?V (item # items) (pid, ?vs, s) =
              list_loop gcs q False ?V items
                (blob_of gcs q oi, map (getVersionMetadata gcs q) [oi], s1)"
            using Inr v by (simp add: Let_def blob_of_def)
          show ?thesis
            unfolding step lo be using Cons.IH [OF inv, of s1] next_run Some c None by simp
        next
          case (Some e)
          with visit_other_visible [OF ne vis, of cb s] c
          have v: "?V ?r (pid, ?vs, s) = (Some e, (pid, ?vs, s1))"
            by simp
          have step: "list_loop gcs q False ?V (item # items) (pid, ?vs, s) =
              (Some (Wrapf e (CallbackFailedFor (Name oi))), (pid, ?vs, s1))"
            using Inr v by (simp add: Let_def)
          show ?thesis
            unfolding step lo be using next_run \<open>run_visible gcs q cur = Some m\<close> c Some
            by (simp add: finish_error callback_failed_at_def)
        qed
      qed
    qed
  qed
qed

text \<open>
  \<^verbatim>\<open>ListBlobs\<close> does what the reading by runs says, for every enumeration, every
  callback and every state of the callback.
\<close>

lemma ListBlobs_refines:
  "ListBlobs gcs p cb s =
     ListBlobs_by_runs gcs (getObjectNameString gcs p) cb
       (object_runs gcs (getObjectNameString gcs p)
          (leading_objects (Objects (bucket gcs) (getObjectNameString gcs p))))
       (backend_error (Objects (bucket gcs) (getObjectNameString gcs p))) s"
proof -
  let ?q = "getObjectNameString gcs p"
  have "\<forall>oi \<in> set ([] :: ObjectAttrs list). blob_of gcs ?q oi = []" by simp
  from loop_refines [OF this, of cb "Objects (bucket gcs) ?q" s] show ?thesis
    by (simp add: ListBlobs_as_finish)
qed


lemma calls_due_Nil: "calls_due gcs q [] = []"
  by (simp add: calls_due_def List.map_filter_def)

lemma calls_due_hidden:
  "run_visible gcs q r = None \<Longrightarrow> calls_due gcs q (r # rs) = calls_due gcs q rs"
  by (simp add: calls_due_def List.map_filter_def)

lemma calls_due_visible:
  "run_visible gcs q r = Some m \<Longrightarrow> calls_due gcs q (r # rs) = m # calls_due gcs q rs"
  by (simp add: calls_due_def List.map_filter_def)

lemma all_nil_Cons: "all_nil (c # tr) = (snd c = None \<and> all_nil tr)"
  by (simp add: all_nil_def)

lemma all_nil_butlast_Cons:
  "all_nil (butlast tr) \<Longrightarrow> all_nil (butlast ((x, None) # tr))"
  by (cases "tr = []") (simp_all add: all_nil_Cons)

lemma failure_reported_last:
  "fin = None \<Longrightarrow> run_visible gcs q r = Some x \<Longrightarrow>
   failure_reported gcs q [r] fin (Suc 0) x e (Some e)"
  by (intro disjI1 exI [of _ "[]"] exI [of _ r]) (simp add: calls_due_visible calls_due_Nil)

lemma failure_reported_next:
  "run_visible gcs q r = Some x \<Longrightarrow>
   failure_reported gcs q (r # r' # rest) fin (Suc 0) x e (Some (callback_failed_at gcs (hd r') e))"
  by (intro disjI2 exI [of _ "[]"] exI [of _ r] exI [of _ r'] exI [of _ rest])
     (simp add: calls_due_visible calls_due_Nil)

lemma failure_reported_skip:
  assumes "failure_reported gcs q rs fin n x e res" and "run_visible gcs q r0 = None"
  shows "failure_reported gcs q (r0 # rs) fin n x e res"
  using assms(1)
proof (elim disjE exE conjE)
  fix ps r
  assume "rs = ps @ [r]" "fin = None" "run_visible gcs q r = Some x"
    "n = length (calls_due gcs q rs)" "res = Some e"
  then have "r0 # rs = (r0 # ps) @ [r] \<and> fin = None \<and> run_visible gcs q r = Some x \<and>
      n = length (calls_due gcs q (r0 # rs)) \<and> res = Some e"
    using assms(2) by (simp add: calls_due_hidden)
  then show "(\<exists>ps r. r0 # rs = ps @ [r] \<and> fin = None \<and> run_visible gcs q r = Some x \<and>
         n = length (calls_due gcs q (r0 # rs)) \<and> res = Some e) \<or>
      (\<exists>ps r r' rest. r0 # rs = ps @ r # r' # rest \<and> run_visible gcs q r = Some x \<and>
         n = length (calls_due gcs q (ps @ [r])) \<and>
         res = Some (callback_failed_at gcs (hd r') e))"
    by blast
next
  fix ps r r' rest
  assume "rs = ps @ r # r' # rest" "run_visible gcs q r = Some x"
    "n = length (calls_due gcs q (ps @ [r]))" "res = Some (callback_failed_at gcs (hd r') e)"
  then have "r0 # rs = (r0 # ps) @ r # r' # rest \<and> run_visible gcs q r = Some x \<and>
      n = length (calls_due gcs q ((r0 # ps) @ [r])) \<and>
      res = Some (callback_failed_at gcs (hd r') e)"
    using assms(2) by (simp add: calls_due_hidden)
  then show "(\<exists>ps r. r0 # rs = ps @ [r] \<and> fin = None \<and> run_visible gcs q r = Some x \<and>
         n = length (calls_due gcs q (r0 # rs)) \<and> res = Some e) \<or>
      (\<exists>ps r r' rest. r0 # rs = ps @ r # r' # rest \<and> run_visible gcs q r = Some x \<and>
         n = length (calls_due gcs q (ps @ [r])) \<and>
         res = Some (callback_failed_at gcs (hd r') e))"
    by blast
qed

lemma failure_reported_after:
  assumes "failure_reported gcs q rs fin n x e res" and "run_visible gcs q r0 = Some m"
  shows "failure_reported gcs q (r0 # rs) fin (Suc n) x e res"
  using assms(1)
proof (elim disjE exE conjE)
  fix ps r
  assume "rs = ps @ [r]" "fin = None" "run_visible gcs q r = Some x"
    "n = length (calls_due gcs q rs)" "res = Some e"
  then have "r0 # rs = (r0 # ps) @ [r] \<and> fin = None \<and> run_visible gcs q r = Some x \<and>
      Suc n = length (calls_due gcs q (r0 # rs)) \<and> res = Some e"
    using assms(2) by (simp add: calls_due_visible)
  then show "(\<exists>ps r. r0 # rs = ps @ [r] \<and> fin = None \<and> run_visible gcs q r = Some x \<and>
         Suc n = length (calls_due gcs q (r0 # rs)) \<and> res = Some e) \<or>
      (\<exists>ps r r' rest. r0 # rs = ps @ r # r' # rest \<and> run_visible gcs q r = Some x \<and>
         Suc n = length (calls_due gcs q (ps @ [r])) \<and>
         res = Some (callback_failed_at gcs (hd r') e))"
    by blast
next
  fix ps r r' rest
  assume "rs = ps @ r # r' # rest" "run_visible gcs q r = Some x"
    "n = length (calls_due gcs q (ps @ [r]))" "res = Some (callback_failed_at gcs (hd r') e)"
  then have "r0 # rs = (r0 # ps) @ r # r' # rest \<and> run_visible gcs q r = Some x \<and>
      Suc n = length (calls_due gcs q ((r0 # ps) @ [r])) \<and>
      res = Some (callback_failed_at gcs (hd r') e)"
    using assms(2) by (simp add: calls_due_visible)
  then show "(\<exists>ps r. r0 # rs = ps @ [r] \<and> fin = None \<and> run_visible gcs q r = Some x \<and>
         Suc n = length (calls_due gcs q (r0 # rs)) \<and> res = Some e) \<or>
      (\<exists>ps r r' rest. r0 # rs = ps @ r # r' # rest \<and> run_visible gcs q r = Some x \<and>
         Suc n = length (calls_due gcs q (ps @ [r])) \<and>
         res = Some (callback_failed_at gcs (hd r') e))"
    by blast
qed


lemma ListBlobs_by_runs_traced:
  assumes "ListBlobs_by_runs gcs q (traced cb) rs fin (s, tr0) = (res, (s', tr))"
  shows "\<exists>calls. tr = tr0 @ calls \<and> all_nil (butlast calls) \<and>
      length calls \<le> length (calls_due gcs q rs) \<and>
      map fst calls = take (length calls) (calls_due gcs q rs) \<and>
      (\<forall>x e. (x, Some e) \<in> set calls \<longrightarrow>
         failure_reported gcs q rs fin (length calls) x e res)"
  using assms
proof (induction rs arbitrary: s tr0)
  case Nil
  then have "tr = tr0 @ []" by simp
  then show ?case by (intro exI [of _ "[]"]) simp
next
  case (Cons r rs)
  show ?case
  proof (cases "run_visible gcs q r")
    case None
    show ?thesis
    proof (cases rs)
      case Nil
      with None Cons.prems have "tr = tr0 @ []" by (cases fin) auto
      then show ?thesis by (intro exI [of _ "[]"]) simp
    next
      case (Cons r' rest)
      with None Cons.prems
      have "ListBlobs_by_runs gcs q (traced cb) rs fin (s, tr0) = (res, (s', tr))" by simp
      from Cons.IH [OF this] obtain calls where c: "tr = tr0 @ calls" "all_nil (butlast calls)"
        "length calls \<le> length (calls_due gcs q rs)"
        "map fst calls = take (length calls) (calls_due gcs q rs)"
        "\<forall>x e. (x, Some e) \<in> set calls \<longrightarrow> failure_reported gcs q rs fin (length calls) x e res"
        by blast
      have "\<forall>x e. (x, Some e) \<in> set calls \<longrightarrow>
          failure_reported gcs q (r # rs) fin (length calls) x e res"
      proof (intro allI impI)
        fix x e
        assume a: "(x, Some e) \<in> set calls"
        from c(5) [rule_format, OF a]
        show "failure_reported gcs q (r # rs) fin (length calls) x e res"
          by (rule failure_reported_skip [OF _ None])
      qed
      with c(1-4) show ?thesis
        by (intro exI [of _ calls]) (simp add: calls_due_hidden [OF None])
    qed
  next
    case (Some m)
    obtain r0 s1 where cb: "cb m s = (r0, s1)"
      by (cases "cb m s")
    note due = calls_due_visible [OF Some, of rs]
    show ?thesis
    proof (cases rs)
      case Nil
      show ?thesis
      proof (cases fin)
        case (Some err)
        with Nil Cons.prems have "tr = tr0 @ []" by simp
        then show ?thesis by (intro exI [of _ "[]"]) simp
      next
        case None
        with Nil Cons.prems \<open>run_visible gcs q r = Some m\<close> cb
        have tr: "tr = tr0 @ [(m, r0)]" and res: "res = r0"
          by (auto simp: traced_apply)
        have "\<forall>x e. (x, Some e) \<in> set [(m, r0)] \<longrightarrow>
            failure_reported gcs q (r # rs) fin (length [(m, r0)]) x e res"
          using failure_reported_last [OF None \<open>run_visible gcs q r = Some m\<close>] res Nil
          by auto
        with tr show ?thesis
          by (intro exI [of _ "[(m, r0)]"]) (simp add: due)
      qed
    next
      case (Cons r' rest)
      show ?thesis
      proof (cases r0)
        case (Some e)
        with Cons Cons.prems \<open>run_visible gcs q r = Some m\<close> cb
        have tr: "tr = tr0 @ [(m, Some e)]"
          and res: "res = Some (callback_failed_at gcs (hd r') e)"
          by (auto simp: traced_apply)
        have "\<forall>x e'. (x, Some e') \<in> set [(m, Some e)] \<longrightarrow>
            failure_reported gcs q (r # rs) fin (length [(m, Some e)]) x e' res"
          using failure_reported_next [OF \<open>run_visible gcs q r = Some m\<close>, of r' rest fin e]
            res Cons by auto
        with tr show ?thesis
          by (intro exI [of _ "[(m, Some e)]"]) (simp add: due)
      next
        case None
        with Cons Cons.prems \<open>run_visible gcs q r = Some m\<close> cb
        have "ListBlobs_by_runs gcs q (traced cb) rs fin (s1, tr0 @ [(m, None)]) = (res, (s', tr))"
          by (auto simp: traced_apply)
        from Cons.IH [OF this] obtain calls where c: "tr = (tr0 @ [(m, None)]) @ calls"
          "all_nil (butlast calls)"
          "length calls \<le> length (calls_due gcs q rs)"
          "map fst calls = take (length calls) (calls_due gcs q rs)"
          "\<forall>x e. (x, Some e) \<in> set calls \<longrightarrow> failure_reported gcs q rs fin (length calls) x e res"
          by blast
        let ?calls = "(m, None) # calls"
        have 1: "tr = tr0 @ ?calls" using c(1) by simp
        have 2: "all_nil (butlast ?calls)" using c(2) by (rule all_nil_butlast_Cons)
        have 3: "length ?calls \<le> length (calls_due gcs q (r # rs))" using c(3) by (simp add: due)
        have 4: "map fst ?calls = take (length ?calls) (calls_due gcs q (r # rs))"
          using c(4) by (simp add: due)
        have 5: "\<forall>x e. (x, Some e) \<in> set ?calls \<longrightarrow>
            failure_reported gcs q (r # rs) fin (length ?calls) x e res"
        proof (intro allI impI)
          fix x e
          assume "(x, Some e) \<in> set ?calls"
          then have a: "(x, Some e) \<in> set calls" by simp
          from c(5) [rule_format, OF a]
          have "failure_reported gcs q (r # rs) fin (Suc (length calls)) x e res"
            by (rule failure_reported_after [OF _ \<open>run_visible gcs q r = Some m\<close>])
          then show "failure_reported gcs q (r # rs) fin (length ?calls) x e res"
            by simp
        qed
        from 1 2 3 4 5 show ?thesis by blast
      qed
    qed
  qed
qed


lemma list_loop_calls:
  assumes step: "\<And>vm st r st'. visit vm st = (r, st') \<Longrightarrow> tr_of st' = tr_of st @ [(vm, r)]"
    and run: "list_loop gcs q om visit items st = (res, st')"
  shows "\<exists>calls. tr_of st' = tr_of st @ calls \<and> all_nil (butlast calls) \<and>
      length calls \<le> length (leading_objects items) \<and>
      map fst calls =
        map (getVersionMetadata gcs q) (take (length calls) (leading_objects items)) \<and>
      (\<forall>x e. (x, Some e) \<in> set calls \<longrightarrow>
         res = Some (Wrapf e
           (CallbackFailedFor (Name (leading_objects items ! (length calls - 1))))))"
  using run
proof (induction items arbitrary: st)
  case Nil
  then have "tr_of st' = tr_of st @ []" by simp
  then show ?case by (intro exI [of _ "[]"]) simp
next
  case (Cons item items)
  show ?case
  proof (cases item)
    case (Inl err)
    with Cons.prems have "tr_of st' = tr_of st @ []" by auto
    then show ?thesis by (intro exI [of _ "[]"]) simp
  next
    case (Inr oi)
    let ?r = "getVersionMetadata gcs q oi"
    have lo: "leading_objects (item # items) = oi # leading_objects items"
      using Inr by simp
    show ?thesis
    proof (cases "om \<and> Name oi \<noteq> q")
      case True
      with Inr Cons.prems have "tr_of st' = tr_of st @ []" by auto
      then show ?thesis by (intro exI [of _ "[]"]) simp
    next
      case False
      obtain r st1 where v: "visit ?r st = (r, st1)"
        by (cases "visit ?r st")
      note t1 = step [OF v]
      show ?thesis
      proof (cases r)
        case (Some e)
        with Cons.prems Inr False v
        have res: "res = Some (Wrapf e (CallbackFailedFor (Name oi)))" and st: "st' = st1"
          by auto
        from t1 st Some have "tr_of st' = tr_of st @ [(?r, Some e)]" by simp
        then show ?thesis
          using res by (intro exI [of _ "[(?r, Some e)]"]) (simp add: lo)
      next
        case None
        with Cons.prems Inr False v
        have "list_loop gcs q om visit items st1 = (res, st')"
          by auto
        from Cons.IH [OF this] obtain calls where c: "tr_of st' = tr_of st1 @ calls"
          "all_nil (butlast calls)"
          "length calls \<le> length (leading_objects items)"
          "map fst calls =
             map (getVersionMetadata gcs q) (take (length calls) (leading_objects items))"
          "\<forall>x e. (x, Some e) \<in> set calls \<longrightarrow>
             res = Some (Wrapf e
               (CallbackFailedFor (Name (leading_objects items ! (length calls - 1)))))"
          by blast
        let ?calls = "(?r, None) # calls"
        have 1: "tr_of st' = tr_of st @ ?calls"
          using c(1) t1 None by simp
        have 2: "all_nil (butlast ?calls)"
          using c(2) by (rule all_nil_butlast_Cons)
        have 3: "length ?calls \<le> length (leading_objects (item # items))"
          using c(3) by (simp add: lo)
        have 4: "map fst ?calls = map (getVersionMetadata gcs q)
            (take (length ?calls) (leading_objects (item # items)))"
          using c(4) by (simp add: lo)
        have 5: "\<forall>x e. (x, Some e) \<in> set ?calls \<longrightarrow>
             res = Some (Wrapf e (CallbackFailedFor
               (Name (leading_objects (item # items) ! (length ?calls - 1)))))"
        proof (intro allI impI)
          fix x e
          assume "(x, Some e) \<in> set ?calls"
          then have in_calls: "(x, Some e) \<in> set calls" by simp
          then have "calls \<noteq> []" by auto
          then have "(oi # leading_objects items) ! (length ?calls - 1) =
              leading_objects items ! (length calls - 1)"
            by (cases calls) simp_all
          with c(5) in_calls
          show "res = Some (Wrapf e (CallbackFailedFor
               (Name (leading_objects (item # items) ! (length ?calls - 1)))))"
            by (simp add: lo)
        qed
        from 1 2 3 4 5 show ?thesis by blast
      qed
    qed
  qed
qed

lemma traced_appends:
  "traced cb vm st = (r, st') \<Longrightarrow> snd st' = snd st @ [(vm, r)]"
  by (cases st) (auto simp: traced_apply split: prod.splits)

lemma getBlobVersions_visit_appends:
  "getBlobVersions_visit (traced cb) vm st = (r, st') \<Longrightarrow>
   snd (snd st') = snd (snd st) @ [(vm, r)]"
  by (cases st) (auto simp: getBlobVersions_visit_def traced_apply split: prod.splits)


text \<open>
  Claim C7, as stated, has the error of the callback returned wrapped with the context of
  the enumeration. \<^verbatim>\<open>ListBlobs\<close> calls its callback for the last blob after the
  enumeration has ended, and returns the error of that call as it is.
\<close>

theorem ListBlobs_last_blob_error:
  "ListBlobs (view_at 25 [Inr (object ''p/a1'' 10 0 1)]) ''a'' failing_callback [] =
     (Some (Other ''stop''), [\<lparr>BlobID = ''1'', Length = 7, Timestamp = 10\<rparr>]) \<and>
   \<not> is_wrapped (Other ''stop'')"
  by (simp add: ListBlobs_def ListBlobs_visit_def listBlobVersions_def list_def
      getObjectNameString_def getVersionMetadata_def toBlobID_def TrimPrefix_def FormatInt10_def
      newestAtUnlessDeleted_def time_defs fixture_defs failing_callback_def
      Metadata.truncate_def versionMetadata.defs Metadata.defs)

text \<open>
  Claim C7, amended. In \<^verbatim>\<open>listBlobVersions\<close>, \<^verbatim>\<open>getBlobVersions\<close> and
  \<^verbatim>\<open>ListBlobs\<close>, once the callback has returned an error it is not called again, and
  the call returns an error made from that error, never success.
  \<^verbatim>\<open>listBlobVersions\<close> and \<^verbatim>\<open>getBlobVersions\<close> call the callback on the records of
  the leading objects of the enumeration, in order, and return the error of the callback
  wrapped with the name of the object on whose record it failed. \<^verbatim>\<open>ListBlobs\<close> calls
  the callback on the visible runs of the stream, in order. When the failing call is for a
  run that another run follows, it returns the error wrapped with the name of the first
  object of that next run and then with the point in time. When the failing call is for
  the last run, made after the enumeration has ended without a backend error, it returns
  the error unchanged.
\<close>

theorem callback_error_aborts:
  assumes "q = getObjectNameString gcs p"
    and "objs = leading_objects (Objects (bucket gcs) q)"
  shows
    "(case listBlobVersions gcs p (traced cb) (s, []) of
        (res, s', tr) \<Rightarrow>
          all_nil (butlast tr) \<and> length tr \<le> length objs \<and>
          map fst tr = map (getVersionMetadata gcs q) (take (length tr) objs) \<and>
          (\<forall>x e. (x, Some e) \<in> set tr \<longrightarrow>
             res = Some (Wrapf e (CallbackFailedFor (Name (objs ! (length tr - 1))))))) \<and>
     (case getBlobVersions gcs p (traced cb) (s, []) of
        (res, s', tr) \<Rightarrow>
          all_nil (butlast tr) \<and> length tr \<le> length objs \<and>
          map fst tr = map (getVersionMetadata gcs q) (take (length tr) objs) \<and>
          (\<forall>x e. (x, Some e) \<in> set tr \<longrightarrow>
             res = Some (Wrapf e (CallbackFailedFor (Name (objs ! (length tr - 1))))))) \<and>
     (case ListBlobs gcs p (traced cb') (s0, []) of
        (res, s', tr) \<Rightarrow>
          all_nil (butlast tr) \<and>
          length tr \<le> length (calls_due gcs q (object_runs gcs q objs)) \<and>
          map fst tr = take (length tr) (calls_due gcs q (object_runs gcs q objs)) \<and>
          (\<forall>x e. (x, Some e) \<in> set tr \<longrightarrow>
             (\<exists>ps r. object_runs gcs q objs = ps @ [r] \<and>
                backend_error (Objects (bucket gcs) q) = None \<and>
                run_visible gcs q r = Some x \<and>
                length tr = length (calls_due gcs q (object_runs gcs q objs)) \<and>
                res = Some e) \<or>
             (\<exists>ps r r' rest. object_runs gcs q objs = ps @ r # r' # rest \<and>
                run_visible gcs q r = Some x \<and>
                length tr = length (calls_due gcs q (ps @ [r])) \<and>
                res = Some (Wrapf (Wrapf e (CallbackFailedFor (Name (hd r'))))
                        (CouldNotListBlobVersionsAtTime (pointInTime gcs))))))"
proof (intro conjI)
  let ?items = "Objects (bucket gcs) q"
  obtain res s' tr where r: "listBlobVersions gcs p (traced cb) (s, []) = (res, (s', tr))"
    by (cases "listBlobVersions gcs p (traced cb) (s, [])") auto
  then have run: "list_loop gcs q False (traced cb) ?items (s, []) = (res, (s', tr))"
    using assms(1) by (simp add: listBlobVersions_def list_def Let_def)
  have "\<exists>calls. snd (s', tr) = snd (s, []) @ calls \<and> all_nil (butlast calls) \<and>
      length calls \<le> length (leading_objects ?items) \<and>
      map fst calls =
        map (getVersionMetadata gcs q) (take (length calls) (leading_objects ?items)) \<and>
      (\<forall>x e. (x, Some e) \<in> set calls \<longrightarrow>
         res = Some (Wrapf e
           (CallbackFailedFor (Name (leading_objects ?items ! (length calls - 1))))))"
  proof (rule list_loop_calls [where visit = "traced cb" and tr_of = snd])
    show "\<And>vm st r st'. traced cb vm st = (r, st') \<Longrightarrow> snd st' = snd st @ [(vm, r)]"
      by (rule traced_appends)
    show "list_loop gcs q False (traced cb) ?items (s, []) = (res, (s', tr))"
      by (rule run)
  qed
  with r assms(2)
  show "case listBlobVersions gcs p (traced cb) (s, []) of
        (res, s', tr) \<Rightarrow>
          all_nil (butlast tr) \<and> length tr \<le> length objs \<and>
          map fst tr = map (getVersionMetadata gcs q) (take (length tr) objs) \<and>
          (\<forall>x e. (x, Some e) \<in> set tr \<longrightarrow>
             res = Some (Wrapf e (CallbackFailedFor (Name (objs ! (length tr - 1))))))"
    by auto
next
  let ?items = "Objects (bucket gcs) q"
  let ?run = "list_loop gcs q True (getBlobVersions_visit (traced cb)) ?items (False, (s, []))"
  obtain r f s1 tr1 where run: "?run = (r, (f, (s1, tr1)))"
    by (cases ?run) auto
  obtain res s' tr where g: "getBlobVersions gcs p (traced cb) (s, []) = (res, (s', tr))"
    by (cases "getBlobVersions gcs p (traced cb) (s, [])") auto
  have shape: "(res, (s', tr)) =
      (case r of Some err \<Rightarrow> (Some err, (s1, tr1))
       | None \<Rightarrow> if \<not> f then (Some ErrBlobNotFound, (s1, tr1)) else (None, (s1, tr1)))"
    using g run assms(1)
    by (auto simp: getBlobVersions_def list_def Let_def split: option.splits)
  then have tr: "tr = tr1"
    by (auto split: option.splits if_splits)
  have calls: "\<exists>calls. snd (snd (f, (s1, tr1))) = snd (snd (False, (s, []))) @ calls \<and>
      all_nil (butlast calls) \<and>
      length calls \<le> length (leading_objects ?items) \<and>
      map fst calls =
        map (getVersionMetadata gcs q) (take (length calls) (leading_objects ?items)) \<and>
      (\<forall>x e. (x, Some e) \<in> set calls \<longrightarrow>
         r = Some (Wrapf e
           (CallbackFailedFor (Name (leading_objects ?items ! (length calls - 1))))))"
  proof (rule list_loop_calls [where visit = "getBlobVersions_visit (traced cb)"
        and tr_of = "\<lambda>st. snd (snd st)"])
    show "\<And>vm st r st'. getBlobVersions_visit (traced cb) vm st = (r, st') \<Longrightarrow>
        snd (snd st') = snd (snd st) @ [(vm, r)]"
      by (rule getBlobVersions_visit_appends)
    show "?run = (r, (f, (s1, tr1)))"
      by (rule run)
  qed
  have res: "\<forall>x e. (x, Some e) \<in> set tr1 \<longrightarrow>
      res = Some (Wrapf e (CallbackFailedFor (Name (leading_objects ?items ! (length tr1 - 1)))))"
  proof (intro allI impI)
    fix x e
    assume "(x, Some e) \<in> set tr1"
    with calls
    have "r = Some (Wrapf e (CallbackFailedFor (Name (leading_objects ?items ! (length tr1 - 1)))))"
      by auto
    with shape
    show "res = Some (Wrapf e (CallbackFailedFor (Name (leading_objects ?items ! (length tr1 - 1)))))"
      by simp
  qed
  from calls res tr g assms(2)
  show "case getBlobVersions gcs p (traced cb) (s, []) of
        (res, s', tr) \<Rightarrow>
          all_nil (butlast tr) \<and> length tr \<le> length objs \<and>
          map fst tr = map (getVersionMetadata gcs q) (take (length tr) objs) \<and>
          (\<forall>x e. (x, Some e) \<in> set tr \<longrightarrow>
             res = Some (Wrapf e (CallbackFailedFor (Name (objs ! (length tr - 1))))))"
    by auto
next
  let ?items = "Objects (bucket gcs) q"
  let ?rs = "object_runs gcs q objs"
  obtain res s' tr where r: "ListBlobs gcs p (traced cb') (s0, []) = (res, (s', tr))"
    by (cases "ListBlobs gcs p (traced cb') (s0, [])") auto
  then have "ListBlobs_by_runs gcs q (traced cb') ?rs (backend_error ?items) (s0, []) = (res, (s', tr))"
    using assms ListBlobs_refines [of gcs p "traced cb'" "(s0, [])"] by simp
  from ListBlobs_by_runs_traced [OF this] r
  show "case ListBlobs gcs p (traced cb') (s0, []) of
        (res, s', tr) \<Rightarrow>
          all_nil (butlast tr) \<and>
          length tr \<le> length (calls_due gcs q ?rs) \<and>
          map fst tr = take (length tr) (calls_due gcs q ?rs) \<and>
          (\<forall>x e. (x, Some e) \<in> set tr \<longrightarrow>
             (\<exists>ps r. ?rs = ps @ [r] \<and>
                backend_error ?items = None \<and>
                run_visible gcs q r = Some x \<and>
                length tr = length (calls_due gcs q ?rs) \<and>
                res = Some e) \<or>
             (\<exists>ps r r' rest. ?rs = ps @ r # r' # rest \<and>
                run_visible gcs q r = Some x \<and>
                length tr = length (calls_due gcs q (ps @ [r])) \<and>
                res = Some (Wrapf (Wrapf e (CallbackFailedFor (Name (hd r'))))
                        (CouldNotListBlobVersionsAtTime (pointInTime gcs)))))"
    by (auto simp: callback_failed_at_def)
qed


lemmas eval_defs = ListBlobs_def ListBlobs_visit_def listBlobVersions_def list_def
  getBlobVersions_def getBlobVersions_visit_def
  getObjectNameString_def getVersionMetadata_def toBlobID_def TrimPrefix_def FormatInt10_def
  newestAtUnlessDeleted_def time_defs fixture_defs traced_def Let_def
  Metadata.truncate_def versionMetadata.defs Metadata.defs

theorem callback_error_aborts_witness:
  "(version ''1'' 10 False ''1'', Some (Other ''stop'')) \<in>
     set (snd (snd (listBlobVersions (view_at 25 listing_a) ''a'' (traced failing_callback) ([], [])))) \<and>
   fst (listBlobVersions (view_at 25 listing_a) ''a'' (traced failing_callback) ([], [])) =
     Some (Wrapf (Other ''stop'') (CallbackFailedFor ''p/a1'')) \<and>
   (\<lparr>BlobID = ''1'', Length = 7, Timestamp = 10\<rparr>, Some (Other ''stop'')) \<in>
     set (snd (snd (ListBlobs (view_at 25 listing_a) ''a'' (traced failing_callback) ([], [])))) \<and>
   (fst (ListBlobs (view_at 25 listing_a) ''a'' (traced failing_callback) ([], [])) =
      Some (Other ''stop'') \<or>
    (\<exists>r' :: ObjectAttrs list. fst (ListBlobs (view_at 25 listing_a) ''a'' (traced failing_callback) ([], [])) =
      Some (Wrapf (Wrapf (Other ''stop'') (CallbackFailedFor (Name (hd r'))))
        (CouldNotListBlobVersionsAtTime 25))))"
proof -
  let ?G = "view_at 25 listing_a"
  let ?v = "version ''1'' 10 False ''1''"
  let ?m = "\<lparr>BlobID = ''1'', Length = 7, Timestamp = 10\<rparr>"
  let ?e = "Other ''stop''"
  let ?objs = "leading_objects (Objects (bucket ?G) ''p/a'')"
  have q: "''p/a'' = getObjectNameString ?G ''a''"
    by (simp add: getObjectNameString_def view_at_def)
  have l: "listBlobVersions ?G ''a'' (traced failing_callback) ([], []) =
      (Some (Wrapf ?e (CallbackFailedFor ''p/a1'')), ([?v], [(?v, Some ?e)]))"
    by (simp add: eval_defs listing_a_def failing_callback_def)
  have b: "ListBlobs ?G ''a'' (traced failing_callback) ([], []) =
      (Some (Wrapf (Wrapf ?e (CallbackFailedFor ''p/a2'')) (CouldNotListBlobVersionsAtTime 25)),
       ([?m], [(?m, Some ?e)]))"
    by (simp add: eval_defs listing_a_def failing_callback_def)
  have n: "Name (?objs ! 0) = ''p/a1''" and t25: "pointInTime ?G = 25"
    by (simp_all add: view_at_def bucket_of_def listing_a_def object_def)
  note t = callback_error_aborts [OF q refl, of failing_callback "[]" failing_callback "[]",
      unfolded case_prod_beta]
  have hl: "(?v, Some ?e) \<in>
     set (snd (snd (listBlobVersions ?G ''a'' (traced failing_callback) ([], []))))"
    by (simp add: l)
  have hb: "(?m, Some ?e) \<in>
     set (snd (snd (ListBlobs ?G ''a'' (traced failing_callback) ([], []))))"
    by (simp add: b)
  have len: "length (snd (snd (listBlobVersions ?G ''a'' (traced failing_callback) ([], [])))) - 1 = 0"
    by (simp add: l)
  from conjunct1 [OF t] hl
  have "fst (listBlobVersions ?G ''a'' (traced failing_callback) ([], [])) =
      Some (Wrapf ?e (CallbackFailedFor (Name (?objs !
        (length (snd (snd (listBlobVersions ?G ''a'' (traced failing_callback) ([], [])))) - 1)))))"
    by blast
  then have cl: "fst (listBlobVersions ?G ''a'' (traced failing_callback) ([], [])) =
      Some (Wrapf ?e (CallbackFailedFor ''p/a1''))"
    by (simp only: len n)
  note runs_part = conjunct2 [OF conjunct2 [OF conjunct2 [OF conjunct2 [OF conjunct2 [OF t]]]]]
  from runs_part [rule_format, OF hb]
  have "fst (ListBlobs ?G ''a'' (traced failing_callback) ([], [])) = Some ?e \<or>
    (\<exists>r' :: ObjectAttrs list. fst (ListBlobs ?G ''a'' (traced failing_callback) ([], [])) =
      Some (Wrapf (Wrapf ?e (CallbackFailedFor (Name (hd r'))))
        (CouldNotListBlobVersionsAtTime (pointInTime ?G))))"
  proof (elim disjE exE conjE)
    assume "fst (ListBlobs ?G ''a'' (traced failing_callback) ([], [])) = Some ?e"
    then show ?thesis by (rule disjI1)
  next
    fix r' :: "ObjectAttrs list"
    assume "fst (ListBlobs ?G ''a'' (traced failing_callback) ([], [])) =
      Some (Wrapf (Wrapf ?e (CallbackFailedFor (Name (hd r'))))
        (CouldNotListBlobVersionsAtTime (pointInTime ?G)))"
    then show ?thesis by blast
  qed
  then have cb: "fst (ListBlobs ?G ''a'' (traced failing_callback) ([], [])) = Some ?e \<or>
    (\<exists>r' :: ObjectAttrs list. fst (ListBlobs ?G ''a'' (traced failing_callback) ([], [])) =
      Some (Wrapf (Wrapf ?e (CallbackFailedFor (Name (hd r'))))
        (CouldNotListBlobVersionsAtTime 25)))"
    by (simp only: t25)
  from hl cl hb cb show ?thesis
    by (intro conjI)
qed

subsection \<open>Listing blobs\<close>

text \<open>
  Claim C3. With blob \<open>a1\<close> of one version and blob \<open>a2\<close> created and then deleted,
  all before the point in time, \<^verbatim>\<open>ListBlobs\<close> should call the callback once, for
  \<open>a1\<close>. On the stream that lists the versions of \<open>a2\<close> newest first, the delete
  marker of 30 and then the version of 20, the code calls the callback twice: for \<open>a1\<close>
  and for the version of 20 of the deleted \<open>a2\<close>. The blob IDs it passes are the object
  names without the whole query prefix \<open>p/a\<close>, that is \<open>1\<close> and \<open>2\<close>.
\<close>

theorem ListBlobs_newest_first_listing:
  "ListBlobs (view_at 35 listing_newest_first) ''a'' record_call [] =
     (None, [\<lparr>BlobID = ''1'', Length = 7, Timestamp = 10\<rparr>,
             \<lparr>BlobID = ''2'', Length = 7, Timestamp = 20\<rparr>]) \<and>
   IsDeleteMarker (getVersionMetadata (view_at 35 listing_newest_first) ''p/a''
     (object ''p/a2'' 30 31 3))"
  by (simp add: ListBlobs_def ListBlobs_visit_def listBlobVersions_def list_def
      getObjectNameString_def getVersionMetadata_def toBlobID_def TrimPrefix_def FormatInt10_def
      newestAtUnlessDeleted_def time_defs fixture_defs record_call_def Let_def
      listing_newest_first_def Metadata.truncate_def versionMetadata.defs Metadata.defs)

subsection \<open>The resolver on an oldest-first sequence\<close>

text \<open>
  On a sequence sorted by ascending timestamp the resolver keeps exactly the records at or
  before the horizon and takes the last of them, which is the latest.
\<close>

lemma getOlderThan_ascending:
  "sorted (map Timestamp vs) \<Longrightarrow> getOlderThan vs t = filter (\<lambda>v. Timestamp v \<le> t) vs"
proof (induction vs)
  case Nil
  then show ?case by simp
next
  case (Cons v vs)
  show ?case
  proof (cases "After (Timestamp v) t")
    case True
    with Cons.prems have "\<forall>w \<in> set vs. \<not> Timestamp w \<le> t"
      by (auto simp: After_def)
    then have "filter (\<lambda>v. Timestamp v \<le> t) vs = []"
      by (simp add: filter_empty_conv)
    with True show ?thesis by (simp add: After_def)
  next
    case False
    with Cons show ?thesis by (simp add: After_def)
  qed
qed

lemma newestAtUnlessDeleted_ascending:
  assumes "sorted (map Timestamp vs)"
  shows "newestAtUnlessDeleted vs t =
     (case filter (\<lambda>v. Timestamp v \<le> t) vs of
        [] \<Rightarrow> (versionMetadata_zero, False)
      | w # ws \<Rightarrow> (last (w # ws), \<not> IsDeleteMarker (last (w # ws))))"
  using getOlderThan_ascending [OF assms, of t]
  by (simp add: newestAtUnlessDeleted_def Let_def last_conv_nth split: list.splits)

lemma newest_ascending_is_latest:
  assumes "sorted (map Timestamp vs)" and "w \<in> set vs" and "Timestamp w \<le> t"
  shows "Timestamp w \<le> Timestamp (fst (newestAtUnlessDeleted vs t)) \<and>
         Timestamp (fst (newestAtUnlessDeleted vs t)) \<le> t \<and>
         fst (newestAtUnlessDeleted vs t) \<in> set vs"
proof -
  let ?es = "filter (\<lambda>v. Timestamp v \<le> t) vs"
  from assms(2,3) have in_es: "w \<in> set ?es" by simp
  then have ne: "?es \<noteq> []" by (cases ?es) simp_all
  then have n: "fst (newestAtUnlessDeleted vs t) = last ?es"
    using newestAtUnlessDeleted_ascending [OF assms(1), of t] by (simp split: list.splits)
  have s: "sorted (map Timestamp ?es)"
    using assms(1) by (simp add: sorted_filter)
  have l: "last ?es \<in> set ?es"
    using ne by (rule last_in_set)
  from in_es [unfolded in_set_conv_nth] obtain i where i: "i < length ?es" and wi: "?es ! i = w"
    by blast
  have "Timestamp (?es ! i) \<le> Timestamp (?es ! (length ?es - 1))"
    using sorted_nth_mono [OF s, of i "length ?es - 1"] i by simp
  with wi ne have "Timestamp w \<le> Timestamp (last ?es)"
    by (simp add: last_conv_nth)
  with l n show ?thesis by auto
qed

end
